theory Spec2Isabelle
  imports Main "HOL-Library.Sublist"
begin

section \<open>rflect.string: the string helpers\<close>

text \<open>
  A JavaScript string is modelled as a \<open>string\<close>: one \<open>char\<close> for each code unit
  (identifiers are ASCII). A JavaScript exception is a value of \<open>error\<close>. The Numbers
  the functions return are doubles that are not negative: \<open>Num n\<close> is the double whose
  value is the natural number \<open>n\<close>, beside \<open>Infinity\<close> and \<open>NaN\<close>.
\<close>

datatype error = TypeError | SyntaxError

datatype js_number = Num nat | Infinity | NaN

text \<open>The character class \<^verbatim>\<open>\d\<close> of a JavaScript regular expression: \<^verbatim>\<open>[0-9]\<close>.\<close>

definition is_digit :: "char \<Rightarrow> bool" where
  "is_digit c = (48 \<le> (of_char c :: nat) \<and> (of_char c :: nat) \<le> 57)"

definition digit_of :: "char \<Rightarrow> nat" where
  "digit_of c = of_char c - 48"

text \<open>The decimal value of a string of digits (leading zeros allowed).\<close>

definition decimal_value :: "string \<Rightarrow> nat" where
  "decimal_value ds = foldl (\<lambda>a c. 10 * a + digit_of c) 0 ds"

text \<open>The number of binary digits of a natural number.\<close>

fun bit_length :: "nat \<Rightarrow> nat" where
  "bit_length n = (if n = 0 then 0 else Suc (bit_length (n div 2)))"

declare bit_length.simps [simp del]

text \<open>
  The Number value for a natural number: the nearest double, the one with the even
  significand when two are equally near. Below \<open>2 ^ 53\<close> every natural number is a
  double. From there on the number is \<open>q * 2 ^ e + r\<close> with a significand \<open>q\<close> of 53
  binary digits, rounded at half of \<open>2 ^ e\<close>; what reaches \<open>2 ^ 1024\<close> is \<open>Infinity\<close>.
\<close>

definition Number_value :: "nat \<Rightarrow> js_number" where
  "Number_value n =
     (if n < 2 ^ 53 then Num n
      else (let e = bit_length n - 53;
                q = n div 2 ^ e;
                r = n mod 2 ^ e;
                q' = (if 2 ^ e < 2 * r \<or> (2 * r = 2 ^ e \<and> odd q) then q + 1 else q)
            in if q' * 2 ^ e < 2 ^ 1024 then Num (q' * 2 ^ e) else Infinity))"

text \<open>
  Unary plus on a string of decimal digits: the Number value for its decimal value, as
  the engines compute it (ECMAScript also lets an engine replace the digits after the
  twentieth significant one by zeros before it rounds).
\<close>

definition ToNumber_digits :: "string \<Rightarrow> js_number" where
  "ToNumber_digits ds = Number_value (decimal_value ds)"

text \<open>
  The greedy match of \<^verbatim>\<open>\d+\<close> (no bound) or of \<^verbatim>\<open>\d{1,n}\<close> (bound \<open>n\<close>) at the very start
  of a string; \<open>None\<close> when the string does not start with a digit.
\<close>

definition match_digits :: "nat option \<Rightarrow> string \<Rightarrow> string option" where
  "match_digits bound s =
     (let run = takeWhile is_digit s;
          m = (case bound of None \<Rightarrow> run | Some n \<Rightarrow> take n run)
      in if m = [] then None else Some m)"

text \<open>
  \<^verbatim>\<open>re.exec(aId)\<close> for a regular expression without flags: the match at the leftmost
  position that has one (\<^verbatim>\<open>matches[0]\<close>), \<open>None\<close> for \<^verbatim>\<open>null\<close>.
\<close>

fun RegExp_exec :: "nat option \<Rightarrow> string \<Rightarrow> string option" where
  "RegExp_exec bound [] = None"
| "RegExp_exec bound (c # cs) =
     (case match_digits bound (c # cs) of
        Some m \<Rightarrow> Some m
      | None \<Rightarrow> RegExp_exec bound cs)"

text \<open>
  The text of a Number that is a natural number, as it is spliced into the pattern, is
  its decimal digits below \<open>10 ^ 21\<close> and has an exponent from there on
  (\<^verbatim>\<open>'1e+21'\<close>).
\<close>

definition exponent_text :: "nat \<Rightarrow> bool" where
  "exponent_text n = (10 ^ 21 \<le> n)"

text \<open>
  \<^verbatim>\<open>rflect.string.getNumericIndex(aId, opt_base)\<close>. \<open>opt_base = None\<close> is the argument
  left out; \<open>Some n\<close> is a Number whose value is the natural number \<open>n\<close>.
  \<^verbatim>\<open>new RegExp('\\d{1,0}')\<close> throws a SyntaxError (numbers out of order in the
  quantifier). With a text in exponent form the braces are no quantifier but characters
  to match, so that a match holds a brace and its unary plus is \<open>NaN\<close>, as it is for
  no match. A string has fewer than \<open>2 ^ 53\<close> code units, so for a Number from \<open>2 ^ 53\<close> on
  the bound of the quantifier (the shortest decimal text that reads back as the Number)
  cuts nothing from a run of digits, as \<open>take n\<close> cuts nothing here.
\<close>

definition getNumericIndex :: "string \<Rightarrow> nat option \<Rightarrow> error + js_number" where
  "getNumericIndex aId opt_base =
     (if opt_base = Some 0 then Inl SyntaxError
      else if (case opt_base of Some n \<Rightarrow> exponent_text n | None \<Rightarrow> False) then Inr NaN
      else (case RegExp_exec opt_base aId of
              Some m \<Rightarrow> Inr (ToNumber_digits m)
            | None \<Rightarrow> Inr NaN))"

definition get2DigitIndex :: "string \<Rightarrow> error + js_number" where
  "get2DigitIndex aId = getNumericIndex aId (Some 2)"

text \<open>
  \<^verbatim>\<open>String.prototype.substring(start)\<close> with the end left out, as ECMAScript defines it:
  both ends are clamped to the length and swapped when out of order.
\<close>

definition String_substring :: "string \<Rightarrow> nat \<Rightarrow> string" where
  "String_substring s start =
     (let len = length s;
          finalStart = min start len;
          finalEnd = len;
          from = min finalStart finalEnd;
          to = max finalStart finalEnd
      in take (to - from) (drop from s))"

definition getIdWithoutPrefix :: "string \<Rightarrow> string \<Rightarrow> string" where
  "getIdWithoutPrefix aStr aPrefix = String_substring aStr (length aPrefix)"

text \<open>
  The numeric suffixes of a string: the Numbers of its non-empty suffixes that consist
  of digits only.
\<close>

definition numeric_suffixes :: "string \<Rightarrow> js_number list" where
  "numeric_suffixes s =
     map ToNumber_digits (filter (\<lambda>m. m \<noteq> [] \<and> list_all is_digit m) (suffixes s))"


text \<open>The first run of decimal digits of a string (empty when it has no digit).\<close>

definition first_digit_run :: "string \<Rightarrow> string" where
  "first_digit_run s = takeWhile is_digit (dropWhile (\<lambda>c. \<not> is_digit c) s)"


section \<open>rflect.dom.ViewportSizeMonitor: the data\<close>

text \<open>
  Objects live in stores and are named by their addresses, so that identity and
  aliasing are those of the JavaScript objects: the \<^verbatim>\<open>goog.math.Size\<close> objects in
  \<open>sizes\<close>, the monitors in \<open>monitors\<close>. A store is a list, an address is an index, and
  \<^verbatim>\<open>new\<close> appends: the new address is the length of the store. A window object is named
  by the number \<^verbatim>\<open>goog.getUid\<close> gives it. Names that end in an underscore in the source
  (\<^verbatim>\<open>listenerKey_\<close>, \<^verbatim>\<open>windowInstanceMap_\<close>, \<^verbatim>\<open>handleResize_\<close>, \<^verbatim>\<open>isPollingRequired_\<close>,
  \<^verbatim>\<open>disposed_\<close>) are written without it, and the field \<^verbatim>\<open>size\<close> is \<open>size'\<close>.
\<close>

type_synonym window = nat

record math_Size =
  width :: nat
  height :: nat

datatype event_type = RESIZE

text \<open>
  The fields of a monitor: \<open>disposed\<close> is the flag of \<^verbatim>\<open>goog.Disposable\<close>, \<open>subscribers\<close>
  the handlers that listen on the monitor itself (kept by \<^verbatim>\<open>goog.events.EventTarget\<close>);
  the other four are the fields the prototype declares as \<^verbatim>\<open>null\<close>.
\<close>

record monitor =
  disposed :: bool
  subscribers :: "nat list"
  listenerKey :: "nat option"
  window :: "window option"
  size' :: "nat option"
  windowSizePollInterval :: "nat option"

text \<open>
  What the monitor does to its host, in the order it does it. \<open>Listen w r k\<close>:
  \<^verbatim>\<open>goog.events.listen\<close> on window \<open>w\<close> for monitor \<open>r\<close> returned key \<open>k\<close>.
  \<open>GetViewportSize w a\<close>: window \<open>w\<close> was measured into the new Size object \<open>a\<close>.
  \<open>SetInterval r rate i\<close>: a timer of that rate for monitor \<open>r\<close> got the identifier \<open>i\<close>.
  \<open>DispatchEvent r e seen\<close>: monitor \<open>r\<close> dispatched an event of type \<open>e\<close> (the event carries
  its type and its target, nothing else); \<open>seen\<close> is the size a subscriber reads from the
  target while the event is delivered.
\<close>

datatype effect =
    Listen window nat nat
  | GetViewportSize window nat
  | SetInterval nat nat nat
  | UnlistenByKey nat
  | ClearInterval nat
  | DispatchEvent nat event_type "math_Size option"

text \<open>
  The host and the heap. \<open>ambient\<close> is the global \<^verbatim>\<open>window\<close>; \<open>WEBKIT\<close>, \<open>WINDOWS\<close> and
  \<open>OPERA\<close> are the flags of \<^verbatim>\<open>goog.userAgent\<close>; \<open>nested w\<close> is \<^verbatim>\<open>w.self != w.top\<close>;
  \<open>viewport w\<close> is what a measurement of \<open>w\<close> would find now. \<open>listeners\<close> are the
  native resize listeners (key, window, monitor whose \<^verbatim>\<open>handleResize_\<close> is called) and
  \<open>intervals\<close> the running timers (identifier, monitor whose \<^verbatim>\<open>checkForSizeChange\<close> is
  called, rate), both in the order of registration.
\<close>

record world =
  ambient :: window
  WEBKIT :: bool
  WINDOWS :: bool
  OPERA :: bool
  nested :: "window \<Rightarrow> bool"
  viewport :: "window \<Rightarrow> math_Size"
  sizes :: "math_Size list"
  monitors :: "monitor list"
  windowInstanceMap :: "nat \<rightharpoonup> nat"
  listeners :: "(nat \<times> window \<times> nat) list"
  next_key :: nat
  intervals :: "(nat \<times> nat \<times> nat) list"
  next_interval :: nat
  trace :: "effect list"

text \<open>
  The state when the script has been loaded (\<^verbatim>\<open>windowInstanceMap_ = {}\<close>), on a given
  host. Listener keys and timer identifiers are counted from 1.
\<close>

definition initial ::
  "window \<Rightarrow> bool \<Rightarrow> bool \<Rightarrow> bool \<Rightarrow> (window \<Rightarrow> bool) \<Rightarrow> (window \<Rightarrow> math_Size) \<Rightarrow> world" where
  "initial amb webkit windows opera nest vp =
     \<lparr>ambient = amb, WEBKIT = webkit, WINDOWS = windows, OPERA = opera, nested = nest,
      viewport = vp, sizes = [], monitors = [], windowInstanceMap = Map.empty,
      listeners = [], next_key = 1, intervals = [], next_interval = 1, trace = []\<rparr>"

text \<open>The host changes the size of a window (nothing of the monitor runs).\<close>

definition host_resize :: "window \<Rightarrow> math_Size \<Rightarrow> world \<Rightarrow> world" where
  "host_resize w v s = s\<lparr>viewport := (viewport s)(w := v)\<rparr>"

text \<open>An assignment to fields of the monitor at address \<open>r\<close>.\<close>

definition update :: "nat \<Rightarrow> (monitor \<Rightarrow> monitor) \<Rightarrow> world \<Rightarrow> world" where
  "update r f s = s\<lparr>monitors := (monitors s)[r := f (monitors s ! r)]\<rparr>"

text \<open>\<^verbatim>\<open>opt_window || window\<close>: the window given, the ambient one otherwise.\<close>

definition or_window :: "window option \<Rightarrow> world \<Rightarrow> window" where
  "or_window opt_window s = (case opt_window of Some w \<Rightarrow> w | None \<Rightarrow> ambient s)"

text \<open>
  \<^verbatim>\<open>goog.getUid(w)\<close>: the number of the window object, which is how the model names
  the window.
\<close>

definition goog_getUid :: "window \<Rightarrow> nat" where
  "goog_getUid w = w"

text \<open>The truth value of a numeric handle in a condition: \<^verbatim>\<open>null\<close> and 0 are false.\<close>

definition truthy :: "nat option \<Rightarrow> bool" where
  "truthy h = (case h of None \<Rightarrow> False | Some n \<Rightarrow> n \<noteq> 0)"


section \<open>The library the monitor calls\<close>

text \<open>
  \<^verbatim>\<open>goog.dom.getViewportSize(opt_window)\<close> measures the window (the ambient one for
  \<^verbatim>\<open>null\<close>) and returns a new Size object.
\<close>

definition goog_dom_getViewportSize :: "window option \<Rightarrow> world \<Rightarrow> nat \<times> world" where
  "goog_dom_getViewportSize opt_window s =
     (let w = or_window opt_window s;
          a = length (sizes s)
      in (a, s\<lparr>sizes := sizes s @ [viewport s w],
                trace := trace s @ [GetViewportSize w a]\<rparr>))"

text \<open>
  \<^verbatim>\<open>goog.math.Size.equals(a, b)\<close>: true for the same reference (also when both are
  \<^verbatim>\<open>null\<close>), false when only one is \<^verbatim>\<open>null\<close>, and otherwise the comparison of widths
  and heights.
\<close>

definition goog_math_Size_equals :: "world \<Rightarrow> nat option \<Rightarrow> nat option \<Rightarrow> bool" where
  "goog_math_Size_equals s a b =
     (if a = b then True
      else (case (a, b) of
              (Some x, Some y) \<Rightarrow>
                width (sizes s ! x) = width (sizes s ! y) \<and>
                height (sizes s ! x) = height (sizes s ! y)
            | _ \<Rightarrow> False))"

text \<open>\<^verbatim>\<open>size.clone()\<close>: a new Size object with the same width and height.\<close>

definition goog_math_Size_clone :: "nat \<Rightarrow> world \<Rightarrow> nat \<times> world" where
  "goog_math_Size_clone a s =
     (length (sizes s),
      s\<lparr>sizes := sizes s @ [\<lparr>width = width (sizes s ! a), height = height (sizes s ! a)\<rparr>]\<rparr>)"

text \<open>A caller that holds a Size object assigns to its fields.\<close>

definition set_Size :: "nat \<Rightarrow> nat \<Rightarrow> nat \<Rightarrow> world \<Rightarrow> world" where
  "set_Size a wd ht s = s\<lparr>sizes := (sizes s)[a := \<lparr>width = wd, height = ht\<rparr>]\<rparr>"

text \<open>
  \<^verbatim>\<open>goog.events.listen(w, RESIZE, this.handleResize_, false, this)\<close> for the monitor \<open>r\<close>
  under construction: a new listener under a new key.
\<close>

definition goog_events_listen :: "window \<Rightarrow> nat \<Rightarrow> world \<Rightarrow> nat \<times> world" where
  "goog_events_listen w r s =
     (let k = next_key s
      in (k, s\<lparr>listeners := listeners s @ [(k, w, r)], next_key := Suc k,
                trace := trace s @ [Listen w r k]\<rparr>))"

definition goog_events_unlistenByKey :: "nat \<Rightarrow> world \<Rightarrow> world" where
  "goog_events_unlistenByKey k s =
     s\<lparr>listeners := filter (\<lambda>(k', w, r). k' \<noteq> k) (listeners s),
       trace := trace s @ [UnlistenByKey k]\<rparr>"

text \<open>\<^verbatim>\<open>window.setInterval(goog.bind(this.checkForSizeChange, this), rate)\<close>.\<close>

definition window_setInterval :: "nat \<Rightarrow> nat \<Rightarrow> world \<Rightarrow> nat \<times> world" where
  "window_setInterval r rate s =
     (let i = next_interval s
      in (i, s\<lparr>intervals := intervals s @ [(i, r, rate)], next_interval := Suc i,
                trace := trace s @ [SetInterval r rate i]\<rparr>))"

definition window_clearInterval :: "nat \<Rightarrow> world \<Rightarrow> world" where
  "window_clearInterval i s =
     s\<lparr>intervals := filter (\<lambda>(i', r, rate). i' \<noteq> i) (intervals s),
       trace := trace s @ [ClearInterval i]\<rparr>"

text \<open>The size a caller reads from monitor \<open>r\<close>: the fields of its Size object.\<close>

definition seen_size :: "nat \<Rightarrow> world \<Rightarrow> math_Size option" where
  "seen_size r s = map_option (\<lambda>a. sizes s ! a) (size' (monitors s ! r))"

text \<open>
  \<^verbatim>\<open>this.dispatchEvent(type)\<close>: the event is delivered to the subscribers; the model
  records it.
\<close>

definition EventTarget_dispatchEvent :: "nat \<Rightarrow> event_type \<Rightarrow> world \<Rightarrow> world" where
  "EventTarget_dispatchEvent r e s = s\<lparr>trace := trace s @ [DispatchEvent r e (seen_size r s)]\<rparr>"

text \<open>\<^verbatim>\<open>goog.events.EventTarget.prototype.disposeInternal\<close> removes the subscribers.\<close>

definition EventTarget_disposeInternal :: "nat \<Rightarrow> world \<Rightarrow> world" where
  "EventTarget_disposeInternal r s = update r (\<lambda>m. m\<lparr>subscribers := []\<rparr>) s"


section \<open>rflect.dom.ViewportSizeMonitor: the operations\<close>

definition WINDOW_SIZE_POLL_RATE :: nat where
  "WINDOW_SIZE_POLL_RATE = 500"

text \<open>
  \<^verbatim>\<open>isPollingRequired_\<close> of a monitor \<open>m\<close>. The second disjunct is only evaluated when the
  first is false, and \<^verbatim>\<open>this.window.self\<close> only when \<open>OPERA\<close> holds: there a \<^verbatim>\<open>null\<close>
  window is a TypeError.
\<close>

definition isPollingRequired :: "world \<Rightarrow> monitor \<Rightarrow> error + bool" where
  "isPollingRequired s m =
     (if WEBKIT s \<and> WINDOWS s then Inr True
      else if OPERA s then
        (case window m of None \<Rightarrow> Inl TypeError | Some w \<Rightarrow> Inr (nested s w))
      else Inr False)"

text \<open>
  \<^verbatim>\<open>new rflect.dom.ViewportSizeMonitor(opt_window)\<close>: the address of the new monitor and
  the state after the constructor.
\<close>

definition new_ViewportSizeMonitor :: "window option \<Rightarrow> world \<Rightarrow> error + (nat \<times> world)" where
  "new_ViewportSizeMonitor opt_window s =
     (let r = length (monitors s);
          s0 = s\<lparr>monitors := monitors s @
                 [\<lparr>disposed = False, subscribers = [], listenerKey = None, window = None,
                   size' = None, windowSizePollInterval = None\<rparr>]\<rparr>;
          s1 = update r (\<lambda>m. m\<lparr>window := Some (or_window opt_window s0)\<rparr>) s0;
          (k, s2) = goog_events_listen (the (window (monitors s1 ! r))) r s1;
          s3 = update r (\<lambda>m. m\<lparr>listenerKey := Some k\<rparr>) s2;
          (a, s4) = goog_dom_getViewportSize (window (monitors s3 ! r)) s3;
          s5 = update r (\<lambda>m. m\<lparr>size' := Some a\<rparr>) s4
      in (case isPollingRequired s5 (monitors s5 ! r) of
            Inl e \<Rightarrow> Inl e
          | Inr True \<Rightarrow>
              (let (i, s6) = window_setInterval r WINDOW_SIZE_POLL_RATE s5
               in Inr (r, update r (\<lambda>m. m\<lparr>windowSizePollInterval := Some i\<rparr>) s6))
          | Inr False \<Rightarrow> Inr (r, s5)))"

text \<open>
  \<^verbatim>\<open>getInstanceForWindow(opt_window)\<close>: the registered monitor is assigned back to its
  entry; a new monitor is constructed only when there is none.
\<close>

definition getInstanceForWindow :: "window option \<Rightarrow> world \<Rightarrow> error + (nat \<times> world)" where
  "getInstanceForWindow opt_window s =
     (let currentWindow = or_window opt_window s;
          uid = goog_getUid currentWindow
      in (case windowInstanceMap s uid of
            Some r \<Rightarrow> Inr (r, s\<lparr>windowInstanceMap := (windowInstanceMap s)(uid \<mapsto> r)\<rparr>)
          | None \<Rightarrow>
              (case new_ViewportSizeMonitor (Some currentWindow) s of
                 Inl e \<Rightarrow> Inl e
               | Inr (r, s') \<Rightarrow>
                   Inr (r, s'\<lparr>windowInstanceMap := (windowInstanceMap s')(uid \<mapsto> r)\<rparr>))))"

text \<open>\<^verbatim>\<open>getSize()\<close> of monitor \<open>r\<close>: the address of a clone, or \<open>None\<close> for \<^verbatim>\<open>null\<close>.\<close>

definition getSize :: "nat \<Rightarrow> world \<Rightarrow> nat option \<times> world" where
  "getSize r s =
     (case size' (monitors s ! r) of
        Some a \<Rightarrow> (let (c, s') = goog_math_Size_clone a s in (Some c, s'))
      | None \<Rightarrow> (None, s))"

definition disposeInternal :: "nat \<Rightarrow> world \<Rightarrow> world" where
  "disposeInternal r s =
     (let s1 = EventTarget_disposeInternal r s;
          s2 = (if truthy (listenerKey (monitors s1 ! r))
                then update r (\<lambda>m. m\<lparr>listenerKey := None\<rparr>)
                       (goog_events_unlistenByKey (the (listenerKey (monitors s1 ! r))) s1)
                else s1);
          s3 = (if truthy (windowSizePollInterval (monitors s2 ! r))
                then update r (\<lambda>m. m\<lparr>windowSizePollInterval := None\<rparr>)
                       (window_clearInterval (the (windowSizePollInterval (monitors s2 ! r))) s2)
                else s2)
      in update r (\<lambda>m. m\<lparr>window := None, size' := None\<rparr>) s3)"

text \<open>
  \<^verbatim>\<open>goog.Disposable.prototype.dispose\<close>: \<^verbatim>\<open>disposeInternal\<close> runs once, guarded by the
  flag. \<^verbatim>\<open>goog.dispose(obj)\<close> does nothing for \<^verbatim>\<open>undefined\<close>.
\<close>

definition dispose :: "nat \<Rightarrow> world \<Rightarrow> world" where
  "dispose r s =
     (if \<not> disposed (monitors s ! r)
      then disposeInternal r (update r (\<lambda>m. m\<lparr>disposed := True\<rparr>) s)
      else s)"

definition goog_dispose :: "nat option \<Rightarrow> world \<Rightarrow> world" where
  "goog_dispose obj s = (case obj of Some r \<Rightarrow> dispose r s | None \<Rightarrow> s)"

definition removeInstanceForWindow :: "window option \<Rightarrow> world \<Rightarrow> world" where
  "removeInstanceForWindow opt_window s =
     (let uid = goog_getUid (or_window opt_window s);
          s1 = goog_dispose (windowInstanceMap s uid) s
      in s1\<lparr>windowInstanceMap := (windowInstanceMap s1)(uid := None)\<rparr>)"

definition checkForSizeChange :: "nat \<Rightarrow> world \<Rightarrow> world" where
  "checkForSizeChange r s =
     (let (a, s1) = goog_dom_getViewportSize (window (monitors s ! r)) s
      in if \<not> goog_math_Size_equals s1 (Some a) (size' (monitors s1 ! r))
         then EventTarget_dispatchEvent r RESIZE (update r (\<lambda>m. m\<lparr>size' := Some a\<rparr>) s1)
         else s1)"

definition handleResize :: "nat \<Rightarrow> world \<Rightarrow> world" where
  "handleResize r s = checkForSizeChange r s"


section \<open>The host calls back\<close>

text \<open>
  The host fires the native resize event of window \<open>w\<close>: every listener on \<open>w\<close> runs, in
  the order of registration. A timer fires: its callback runs.
\<close>

definition fire_resize :: "window \<Rightarrow> world \<Rightarrow> world" where
  "fire_resize w s =
     fold (\<lambda>(k, w', r) s'. if w' = w then handleResize r s' else s') (listeners s) s"

definition fire_interval :: "nat \<Rightarrow> world \<Rightarrow> world" where
  "fire_interval i s =
     fold (\<lambda>(i', r, rate) s'. if i' = i then checkForSizeChange r s' else s') (intervals s) s"

text \<open>The timer \<open>i\<close> fires \<open>n\<close> times in a row.\<close>

fun poll :: "nat \<Rightarrow> nat \<Rightarrow> world \<Rightarrow> world" where
  "poll 0 i s = s"
| "poll (Suc n) i s = poll n i (fire_interval i s)"

text \<open>
  A run of checks of monitor \<open>r\<close> on window \<open>w\<close>: before each check the host reports the
  next measurement of the list.
\<close>

fun checks :: "nat \<Rightarrow> window \<Rightarrow> math_Size list \<Rightarrow> world \<Rightarrow> world" where
  "checks r w [] s = s"
| "checks r w (v # vs) s = checks r w vs (checkForSizeChange r (host_resize w v s))"

text \<open>The resize notifications in a trace.\<close>

fun is_dispatch :: "effect \<Rightarrow> bool" where
  "is_dispatch (DispatchEvent r e seen) = True"
| "is_dispatch _ = False"

definition notifications :: "world \<Rightarrow> effect list" where
  "notifications s = filter is_dispatch (trace s)"

text \<open>
  The active state of the monitor at address \<open>r\<close>: constructed and not disposed. It
  holds its window, a listener key and a measurement.
\<close>

definition active :: "nat \<Rightarrow> world \<Rightarrow> bool" where
  "active r s =
     (r < length (monitors s) \<and>
      \<not> disposed (monitors s ! r) \<and>
      window (monitors s ! r) \<noteq> None \<and>
      truthy (listenerKey (monitors s ! r)) \<and>
      (case size' (monitors s ! r) of None \<Rightarrow> False | Some a \<Rightarrow> a < length (sizes s)))"

text \<open>
  The invariant of the states the operations produce: handles are not 0, references
  point into the stores, the registry names each monitor for one window only, and every
  listener and timer of the host is the one its monitor remembers. It holds in every
  reachable state (\<open>reachable_well_formed\<close>).
\<close>

definition well_formed :: "world \<Rightarrow> bool" where
  "well_formed s =
     (0 < next_key s \<and> 0 < next_interval s \<and>
      (\<forall>m\<in>set (monitors s).
         listenerKey m \<noteq> Some 0 \<and> windowSizePollInterval m \<noteq> Some 0 \<and>
         (\<forall>a. size' m = Some a \<longrightarrow> a < length (sizes s))) \<and>
      (\<forall>u r. windowInstanceMap s u = Some r \<longrightarrow> r < length (monitors s)) \<and>
      (\<forall>u u' r. windowInstanceMap s u = Some r \<longrightarrow> windowInstanceMap s u' = Some r \<longrightarrow> u = u') \<and>
      (\<forall>(k, w, r)\<in>set (listeners s).
         k < next_key s \<and> r < length (monitors s) \<and> listenerKey (monitors s ! r) = Some k) \<and>
      (\<forall>(i, r, rate)\<in>set (intervals s).
         i < next_interval s \<and> r < length (monitors s) \<and>
         windowSizePollInterval (monitors s ! r) = Some i))"


text \<open>Every monitor that has not been disposed holds a measurement.\<close>

definition measured :: "world \<Rightarrow> bool" where
  "measured s = (\<forall>m\<in>set (monitors s). \<not> disposed m \<longrightarrow> size' m \<noteq> None)"

text \<open>
  The states a program can reach: from the state after loading, by the operations of
  the monitor on objects that exist, by assignments to Size objects, and by the host
  (it resizes windows, fires resize events and timers).
\<close>

inductive reachable :: "world \<Rightarrow> bool" where
  loaded: "reachable (initial amb webkit windows opera nest vp)"
| resized: "reachable s \<Longrightarrow> reachable (host_resize w v s)"
| constructed:
    "reachable s \<Longrightarrow> new_ViewportSizeMonitor opt_window s = Inr (r, s') \<Longrightarrow> reachable s'"
| got: "reachable s \<Longrightarrow> getInstanceForWindow opt_window s = Inr (r, s') \<Longrightarrow> reachable s'"
| removed: "reachable s \<Longrightarrow> reachable (removeInstanceForWindow opt_window s)"
| read: "reachable s \<Longrightarrow> r < length (monitors s) \<Longrightarrow> reachable (snd (getSize r s))"
| assigned: "reachable s \<Longrightarrow> reachable (set_Size a wd ht s)"
| disposed: "reachable s \<Longrightarrow> r < length (monitors s) \<Longrightarrow> reachable (dispose r s)"
| checked: "reachable s \<Longrightarrow> r < length (monitors s) \<Longrightarrow> reachable (checkForSizeChange r s)"
| resize_fired: "reachable s \<Longrightarrow> reachable (fire_resize w s)"
| timer_fired: "reachable s \<Longrightarrow> reachable (fire_interval i s)"

text \<open>
  The host check in the words of the specification: the legacy rendering engine on the
  desktop operating system, or the browser inside a frame that is not the top-level
  one.
\<close>

definition host_needs_polling :: "world \<Rightarrow> window \<Rightarrow> bool" where
  "host_needs_polling s w = (WEBKIT s \<and> WINDOWS s \<or> OPERA s \<and> nested s w)"

text \<open>
  Two hosts to run the operations on: a desktop whose ambient window 0 measures
  1024 by 768 and needs no polling, and the same desktop with the engine that does.
\<close>

definition desktop :: world where
  "desktop = initial 0 False False False (\<lambda>w. False) (\<lambda>w. \<lparr>width = 1024, height = 768\<rparr>)"

definition polling_desktop :: world where
  "polling_desktop = initial 0 True True False (\<lambda>w. False) (\<lambda>w. \<lparr>width = 1024, height = 768\<rparr>)"

text \<open>
  The same hosts after \<^verbatim>\<open>new rflect.dom.ViewportSizeMonitor()\<close>, and the first after
  \<^verbatim>\<open>getInstanceForWindow()\<close>: the monitor is at address 0 in each.
\<close>

definition monitored_desktop :: world where
  "monitored_desktop = snd (projr (new_ViewportSizeMonitor None desktop))"

definition monitored_polling_desktop :: world where
  "monitored_polling_desktop = snd (projr (new_ViewportSizeMonitor None polling_desktop))"

definition registered_desktop :: world where
  "registered_desktop = snd (projr (getInstanceForWindow None desktop))"


section \<open>Properties of the string helpers\<close>

lemma String_substring_drop: "String_substring s n = drop n s"
  by (cases "n \<le> length s") (simp_all add: String_substring_def Let_def min_def max_def)

text \<open>
  C10: \<open>getIdWithoutPrefix aStr aPrefix\<close> is \<open>aStr\<close> without its first \<open>length aPrefix\<close>
  characters, whatever \<open>aPrefix\<close> holds: the prefix is never compared with the string.
  The result is empty exactly when \<open>aStr\<close> is no longer than \<open>aPrefix\<close>, so it is empty
  for every \<open>aStr\<close> shorter than \<open>aPrefix\<close>.
\<close>

theorem getIdWithoutPrefix_drops_unconditionally:
  "getIdWithoutPrefix aStr aPrefix = drop (length aPrefix) aStr \<and>
   length (getIdWithoutPrefix aStr aPrefix) = length aStr - length aPrefix \<and>
   (getIdWithoutPrefix aStr aPrefix = [] \<longleftrightarrow> length aStr \<le> length aPrefix)"
  by (simp add: getIdWithoutPrefix_def String_substring_drop)

lemma getIdWithoutPrefix_mismatch_example:
  "getIdWithoutPrefix ''row-17'' ''cell-'' = ''7'' \<and> getIdWithoutPrefix ''ab'' ''cell-'' = ''''"
  by (simp add: getIdWithoutPrefix_def String_substring_drop)


lemma match_digits_nondigit: "\<not> is_digit c \<Longrightarrow> match_digits b (c # cs) = None"
  by (simp add: match_digits_def split: option.splits)

lemma match_digits_digit:
  "is_digit c \<Longrightarrow> b \<noteq> Some 0 \<Longrightarrow>
   match_digits b (c # cs) =
     Some (case b of None \<Rightarrow> takeWhile is_digit (c # cs)
           | Some n \<Rightarrow> take n (takeWhile is_digit (c # cs)))"
  by (cases b) (auto simp add: match_digits_def Let_def gr0_conv_Suc)

lemma first_digit_run_Cons:
  "first_digit_run (c # cs) =
     (if is_digit c then c # takeWhile is_digit cs else first_digit_run cs)"
  by (simp add: first_digit_run_def)

lemma RegExp_exec_first_run:
  "b \<noteq> Some 0 \<Longrightarrow>
   RegExp_exec b s =
     (let m = (case b of None \<Rightarrow> first_digit_run s | Some n \<Rightarrow> take n (first_digit_run s))
      in if m = [] then None else Some m)"
proof (induction s)
  case Nil
  then show ?case by (simp add: first_digit_run_def split: option.splits)
next
  case (Cons c cs)
  show ?case
  proof (cases "is_digit c")
    case True
    with Cons.prems show ?thesis
      by (cases b) (auto simp add: match_digits_digit first_digit_run_Cons Let_def gr0_conv_Suc)
  next
    case False
    with Cons show ?thesis
      by (cases b) (simp_all add: match_digits_nondigit first_digit_run_Cons)
  qed
qed

lemma first_digit_run_suffix:
  "\<forall>c\<in>set p. \<not> is_digit c \<Longrightarrow> \<forall>c\<in>set d. is_digit c \<Longrightarrow> first_digit_run (p @ d) = d"
  by (simp add: first_digit_run_def dropWhile_append3 dropWhile_append)

lemma bit_length_bounds: "2 ^ k \<le> n \<Longrightarrow> n < 2 ^ Suc k \<Longrightarrow> bit_length n = Suc k"
proof (induction k arbitrary: n)
  case 0
  then have "n = 1" by simp
  then show ?case by (simp add: bit_length.simps[of "Suc 0"] bit_length.simps[of 0])
next
  case (Suc k)
  from Suc.prems have "2 ^ k \<le> n div 2" "n div 2 < 2 ^ Suc k" by auto
  then have "bit_length (n div 2) = Suc k" by (rule Suc.IH)
  moreover from Suc.prems have "n \<noteq> 0" by auto
  ultimately show ?case by (simp add: bit_length.simps[of n])
qed

lemma bit_length_least: "2 ^ k \<le> n \<Longrightarrow> k < bit_length n"
proof (induction k arbitrary: n)
  case 0
  then show ?case by (simp add: bit_length.simps[of n])
next
  case (Suc k)
  from Suc.prems have "2 ^ k \<le> n div 2" by auto
  then have "k < bit_length (n div 2)" by (rule Suc.IH)
  moreover from Suc.prems have "n \<noteq> 0" by (cases "n = 0") simp_all
  ultimately show ?case by (simp add: bit_length.simps[of n])
qed

lemma bit_length_upper: "n < 2 ^ bit_length n"
proof (induction n rule: less_induct)
  case (less n)
  show ?case
  proof (cases "n = 0")
    case True
    then show ?thesis by simp
  next
    case False
    then have "n div 2 < 2 ^ bit_length (n div 2)" by (intro less.IH) simp
    then have "n < 2 * 2 ^ bit_length (n div 2)" by linarith
    with False show ?thesis by (simp add: bit_length.simps[of n])
  qed
qed

lemma Number_value_exact: "n < 2 ^ 53 \<Longrightarrow> Number_value n = Num n"
  by (simp add: Number_value_def)

lemma bit_length_lower: "n \<noteq> 0 \<Longrightarrow> 2 ^ (bit_length n - 1) \<le> n"
proof (induction n rule: less_induct)
  case (less n)
  show ?case
  proof (cases "n div 2 = 0")
    case True
    with less.prems have "n = 1" by linarith
    then show ?thesis by (simp add: bit_length.simps[of "Suc 0"] bit_length.simps[of 0])
  next
    case False
    with less.prems have "2 ^ (bit_length (n div 2) - 1) \<le> n div 2" by (intro less.IH) simp_all
    moreover from False have "bit_length (n div 2) \<noteq> 0" by (simp add: bit_length.simps[of "n div 2"])
    ultimately have "2 ^ bit_length (n div 2) \<le> 2 * (n div 2)"
      by (cases "bit_length (n div 2)") simp_all
    also have "\<dots> \<le> n" by simp
    finally show ?thesis using less.prems by (simp add: bit_length.simps[of n])
  qed
qed

lemma Number_value_overflow:
  assumes "2 ^ 1024 \<le> n"
  shows "Number_value n = Infinity"
proof -
  define e where "e = bit_length n - 53"
  from bit_length_least[OF assms] have b: "1024 < bit_length n" .
  have "(2::nat) ^ 53 \<le> 2 ^ 1024" by (rule power_increasing) simp_all
  with assms have big: "\<not> n < 2 ^ 53" by linarith
  from assms have "n \<noteq> 0" by (cases "n = 0") simp_all
  then have low: "2 ^ (bit_length n - 1) \<le> n" by (rule bit_length_lower)
  have split: "bit_length n - 1 = 52 + e" using b by (simp add: e_def)
  have le: "(2::nat) ^ 1024 \<le> 2 ^ (52 + e)"
    using b by (intro power_increasing) (simp_all add: e_def)
  from low have "2 ^ 52 * 2 ^ e \<le> n" by (simp only: split power_add)
  then have "2 ^ 52 \<le> n div 2 ^ e" by (simp only: less_eq_div_iff_mult_less_eq zero_less_power zero_less_numeral)
  then have m: "2 ^ 52 * 2 ^ e \<le> (n div 2 ^ e) * 2 ^ e" by (rule mult_right_mono) simp
  have q: "2 ^ 1024 \<le> (n div 2 ^ e) * 2 ^ e"
    using le[unfolded power_add] m by (rule order_trans)
  have "(n div 2 ^ e) * 2 ^ e \<le> (n div 2 ^ e + 1) * 2 ^ e"
    by (rule mult_right_mono) simp_all
  with q have "2 ^ 1024 \<le> (n div 2 ^ e + 1) * 2 ^ e" by (rule order_trans)
  with q have "\<not> (n div 2 ^ e) * 2 ^ e < 2 ^ 1024" "\<not> (n div 2 ^ e + 1) * 2 ^ e < 2 ^ 1024"
    by (simp_all only: not_less)
  with big show ?thesis
    unfolding Number_value_def Let_def e_def[symmetric] by (simp only: if_False simp_thms split: if_splits)
qed

lemma Number_value_rounds_to_even:
  "Number_value 9007199254740992 = Num 9007199254740992 \<and>
   Number_value 9007199254740993 = Num 9007199254740992 \<and>
   Number_value 9007199254740995 = Num 9007199254740996"
proof -
  have "bit_length 9007199254740992 = Suc 53" "bit_length 9007199254740993 = Suc 53"
    "bit_length 9007199254740995 = Suc 53"
    by (rule bit_length_bounds; simp)+
  then show ?thesis by (simp add: Number_value_def Let_def)
qed

lemma digit_of_le: "is_digit c \<Longrightarrow> digit_of c \<le> 9"
  unfolding is_digit_def digit_of_def by linarith

lemma foldl_decimal_bound:
  "list_all is_digit ds \<Longrightarrow>
   foldl (\<lambda>a c. 10 * a + digit_of c) a ds < (a + 1) * 10 ^ length ds"
proof (induction ds arbitrary: a)
  case Nil
  then show ?case by simp
next
  case (Cons c cs)
  then have "digit_of c \<le> 9" and cs: "list_all is_digit cs" by (simp_all add: digit_of_le)
  from Cons.IH[OF cs, of "10 * a + digit_of c"]
  have "foldl (\<lambda>a c. 10 * a + digit_of c) (10 * a + digit_of c) cs
      < (10 * a + digit_of c + 1) * 10 ^ length cs" .
  also have "\<dots> \<le> (10 * a + 10) * 10 ^ length cs"
    using \<open>digit_of c \<le> 9\<close> by (intro mult_right_mono) simp_all
  finally show ?case by (simp add: algebra_simps)
qed

lemma decimal_value_bound: "list_all is_digit ds \<Longrightarrow> decimal_value ds < 10 ^ length ds"
  using foldl_decimal_bound[of ds 0] by (simp add: decimal_value_def)

lemma first_digit_run_digits: "list_all is_digit (take n (first_digit_run s))"
  by (auto simp add: list_all_iff first_digit_run_def dest!: in_set_takeD dest: set_takeWhileD)

lemma two_digits_exact:
  "ToNumber_digits (take 2 (first_digit_run s)) = Num (decimal_value (take 2 (first_digit_run s)))"
proof -
  have "decimal_value (take 2 (first_digit_run s)) < 10 ^ length (take 2 (first_digit_run s))"
    by (rule decimal_value_bound) (rule first_digit_run_digits)
  also have "\<dots> \<le> 10 ^ 2" by (intro power_increasing) simp_all
  finally have "decimal_value (take 2 (first_digit_run s)) < 2 ^ 53" by simp
  then show ?thesis by (simp add: ToNumber_digits_def Number_value_exact)
qed

text \<open>
  C9, as the code has it: \<open>getNumericIndex\<close> reads the first run of digits of the
  identifier, wherever it stands, cut to at most \<open>n\<close> digits when the width \<open>n\<close> is given
  (\<open>get2DigitIndex\<close>: \<open>n = 2\<close>; the whole run when no width is given), and returns the
  Number for its decimal value: that value itself below \<open>2 ^ 53\<close> (always for two
  digits), the nearest double above, \<open>Infinity\<close> from \<open>2 ^ 1024\<close> on. The result is \<open>NaN\<close>
  when the identifier has no digit, and for every identifier when the width is
  \<open>10 ^ 21\<close> or more; the width 0 is a SyntaxError. The result is the number of a suffix
  when the identifier is a prefix without digits followed by at most \<open>n\<close> digits.
\<close>

theorem getNumericIndex_reads_first_digit_run:
  "(0 < n \<and> n < 10 ^ 21 \<longrightarrow>
      getNumericIndex aId (Some n) =
        Inr (if first_digit_run aId = [] then NaN
             else ToNumber_digits (take n (first_digit_run aId)))) \<and>
   (10 ^ 21 \<le> n \<longrightarrow> getNumericIndex aId (Some n) = Inr NaN) \<and>
   getNumericIndex aId (Some 0) = Inl SyntaxError \<and>
   get2DigitIndex aId =
     Inr (if first_digit_run aId = [] then NaN
          else Num (decimal_value (take 2 (first_digit_run aId)))) \<and>
   getNumericIndex aId None =
     Inr (if first_digit_run aId = [] then NaN else ToNumber_digits (first_digit_run aId)) \<and>
   (0 < n \<and> n < 10 ^ 21 \<and> list_all (\<lambda>c. \<not> is_digit c) p \<and> list_all is_digit d \<and>
    d \<noteq> [] \<and> length d \<le> n \<longrightarrow>
      getNumericIndex (p @ d) (Some n) = Inr (ToNumber_digits d)) \<and>
   (decimal_value ds < 2 ^ 53 \<longrightarrow> ToNumber_digits ds = Num (decimal_value ds)) \<and>
   (2 ^ 1024 \<le> decimal_value ds \<longrightarrow> ToNumber_digits ds = Infinity)"
proof -
  have g: "getNumericIndex x (Some k) =
           Inr (if first_digit_run x = [] then NaN
                else ToNumber_digits (take k (first_digit_run x)))"
    if "0 < k" "k < 10 ^ 21" for x k
    using that
    by (simp add: getNumericIndex_def exponent_text_def RegExp_exec_first_run Let_def)
  have big: "getNumericIndex aId (Some n) = Inr NaN" if "10 ^ 21 \<le> n"
    using that by (auto simp add: getNumericIndex_def exponent_text_def)
  have zero: "getNumericIndex aId (Some 0) = Inl SyntaxError"
    by (simp add: getNumericIndex_def)
  have two: "get2DigitIndex aId =
     Inr (if first_digit_run aId = [] then NaN
          else Num (decimal_value (take 2 (first_digit_run aId))))"
    by (simp add: get2DigitIndex_def g two_digits_exact)
  have none: "getNumericIndex aId None =
     Inr (if first_digit_run aId = [] then NaN else ToNumber_digits (first_digit_run aId))"
    by (simp add: getNumericIndex_def RegExp_exec_first_run Let_def)
  have suf: "getNumericIndex (p @ d) (Some n) = Inr (ToNumber_digits d)"
    if "0 < n" "n < 10 ^ 21" "list_all (\<lambda>c. \<not> is_digit c) p" "list_all is_digit d"
      "d \<noteq> []" "length d \<le> n"
    using that by (simp add: g first_digit_run_suffix list_all_iff)
  have ex: "ToNumber_digits ds = Num (decimal_value ds)" if "decimal_value ds < 2 ^ 53"
    using that by (simp add: ToNumber_digits_def Number_value_exact)
  have inf: "ToNumber_digits ds = Infinity" if "2 ^ 1024 \<le> decimal_value ds"
    using that by (simp add: ToNumber_digits_def Number_value_overflow)
  from g[of n aId] big zero two none suf ex inf show ?thesis by blast
qed

theorem getNumericIndex_reads_first_digit_run_witness:
  "(0::nat) < 2 \<and> (2::nat) < 10 ^ 21 \<and>
   getNumericIndex ''id123'' (Some 2) = Inr (Num 12) \<and>
   get2DigitIndex ''a1b22'' = Inr (Num 1) \<and>
   get2DigitIndex ''abc'' = Inr NaN \<and>
   (10::nat) ^ 21 \<le> 10 ^ 21 \<and>
   getNumericIndex ''id123'' (Some (10 ^ 21)) = Inr NaN \<and>
   list_all (\<lambda>c. \<not> is_digit c) ''row'' \<and> list_all is_digit ''07'' \<and>
   ''07'' \<noteq> [] \<and> length ''07'' \<le> (2::nat) \<and>
   getNumericIndex (''row'' @ ''07'') (Some 2) = Inr (Num 7) \<and>
   decimal_value ''07'' < 2 ^ 53 \<and> ToNumber_digits ''07'' = Num 7"
proof -
  have h: "(0::nat) < 2 \<and> (2::nat) < 10 ^ 21" "(10::nat) ^ 21 \<le> 10 ^ 21" by simp_all
  have d: "list_all (\<lambda>c. \<not> is_digit c) ''row'' \<and> list_all is_digit ''07'' \<and>
    ''07'' \<noteq> [] \<and> length ''07'' \<le> (2::nat)"
    by (simp add: is_digit_def)
  have v: "decimal_value ''07'' = 7" "decimal_value ''12'' = 12" "decimal_value ''1'' = 1"
    by (simp_all add: decimal_value_def digit_of_def)
  have r: "first_digit_run ''id123'' = ''123''" "first_digit_run ''a1b22'' = ''1''"
    "first_digit_run ''abc'' = []"
    by (simp_all add: first_digit_run_def is_digit_def)
  have e: "ToNumber_digits ''12'' = Num 12" "ToNumber_digits ''07'' = Num 7"
    by (simp_all add: ToNumber_digits_def Number_value_def v)
  from getNumericIndex_reads_first_digit_run[of 2 "''id123''" "''row''" "''07''" "''07''"]
    getNumericIndex_reads_first_digit_run[of 2 "''a1b22''" "''row''" "''07''" "''07''"]
    getNumericIndex_reads_first_digit_run[of 2 "''abc''" "''row''" "''07''" "''07''"]
    getNumericIndex_reads_first_digit_run[of "10 ^ 21" "''id123''" "''row''" "''07''" "''07''"]
    h d show ?thesis
    by (simp add: v r e)
qed

text \<open>
  Beyond \<open>2 ^ 53\<close> two identifiers can have the same index: the digits 9007199254740993
  are read as the double 9007199254740992.
\<close>

lemma getNumericIndex_beyond_safe_integers:
  "getNumericIndex ''id9007199254740993'' (Some 16) = Inr (Num 9007199254740992) \<and>
   getNumericIndex ''id9007199254740992'' (Some 16) = Inr (Num 9007199254740992)"
proof -
  have r: "first_digit_run ''id9007199254740993'' = ''9007199254740993''"
    "first_digit_run ''id9007199254740992'' = ''9007199254740992''"
    by (simp_all add: first_digit_run_def is_digit_def)
  have v: "decimal_value ''9007199254740993'' = 9007199254740993"
    "decimal_value ''9007199254740992'' = 9007199254740992"
    by (simp_all add: decimal_value_def digit_of_def)
  have x: "RegExp_exec (Some 16) ''id9007199254740993'' = Some ''9007199254740993''"
    "RegExp_exec (Some 16) ''id9007199254740992'' = Some ''9007199254740992''"
    using RegExp_exec_first_run[of "Some 16" "''id9007199254740993''"]
      RegExp_exec_first_run[of "Some 16" "''id9007199254740992''"]
    by (simp_all add: r Let_def del: RegExp_exec.simps)
  show ?thesis
    by (simp add: getNumericIndex_def exponent_text_def x ToNumber_digits_def v
        Number_value_rounds_to_even del: RegExp_exec.simps)
qed

text \<open>
  The claim as it is written fails on \<open>''id123''\<close>: the two-digit index is 12, and
  no numeric suffix of the identifier (3, 23, 123) has that value.
\<close>

theorem get2DigitIndex_not_a_suffix:
  "get2DigitIndex ''id123'' = Inr (Num 12) \<and>
   numeric_suffixes ''id123'' = [Num 3, Num 23, Num 123] \<and>
   Num 12 \<notin> set (numeric_suffixes ''id123'')"
  by (simp add: get2DigitIndex_def getNumericIndex_def exponent_text_def match_digits_def
      is_digit_def ToNumber_digits_def Number_value_def decimal_value_def digit_of_def
      numeric_suffixes_def)

section \<open>The operations as state changes\<close>

text \<open>
  Each operation is characterised once by the state it returns; the later proofs use
  these equations instead of the definitions.
\<close>

lemma isPollingRequired_window:
  "window m = Some w \<Longrightarrow> isPollingRequired s m = Inr (host_needs_polling s w)"
  by (auto simp add: isPollingRequired_def host_needs_polling_def)

lemma or_window_update:
  "or_window ow (s\<lparr>monitors := ms\<rparr>) = or_window ow s"
  "or_window ow (s\<lparr>sizes := sz\<rparr>) = or_window ow s"
  "or_window ow (s\<lparr>listeners := ls\<rparr>) = or_window ow s"
  "or_window ow (s\<lparr>next_key := nk\<rparr>) = or_window ow s"
  "or_window ow (s\<lparr>intervals := iv\<rparr>) = or_window ow s"
  "or_window ow (s\<lparr>next_interval := ni\<rparr>) = or_window ow s"
  "or_window ow (s\<lparr>trace := tr\<rparr>) = or_window ow s"
  "or_window ow (s\<lparr>windowInstanceMap := wm\<rparr>) = or_window ow s"
  "or_window ow (s\<lparr>viewport := vp\<rparr>) = or_window ow s"
  by (simp_all add: or_window_def split: option.splits)

lemma or_window_Some: "or_window (Some w) s = w"
  by (simp add: or_window_def)

lemma host_needs_polling_update:
  "host_needs_polling (s\<lparr>monitors := ms\<rparr>) = host_needs_polling s"
  "host_needs_polling (s\<lparr>sizes := sz\<rparr>) = host_needs_polling s"
  "host_needs_polling (s\<lparr>listeners := ls\<rparr>) = host_needs_polling s"
  "host_needs_polling (s\<lparr>next_key := nk\<rparr>) = host_needs_polling s"
  "host_needs_polling (s\<lparr>intervals := iv\<rparr>) = host_needs_polling s"
  "host_needs_polling (s\<lparr>next_interval := ni\<rparr>) = host_needs_polling s"
  "host_needs_polling (s\<lparr>trace := tr\<rparr>) = host_needs_polling s"
  "host_needs_polling (s\<lparr>windowInstanceMap := wm\<rparr>) = host_needs_polling s"
  "host_needs_polling (s\<lparr>viewport := vp\<rparr>) = host_needs_polling s"
  by (simp_all add: host_needs_polling_def fun_eq_iff)

lemma new_ViewportSizeMonitor_polling:
  assumes "host_needs_polling s (or_window ow s)"
  shows "new_ViewportSizeMonitor ow s = Inr (length (monitors s),
     s\<lparr>monitors := monitors s @
         [\<lparr>disposed = False, subscribers = [], listenerKey = Some (next_key s),
           window = Some (or_window ow s), size' = Some (length (sizes s)),
           windowSizePollInterval = Some (next_interval s)\<rparr>],
       sizes := sizes s @ [viewport s (or_window ow s)],
       listeners := listeners s @ [(next_key s, or_window ow s, length (monitors s))],
       next_key := Suc (next_key s),
       intervals := intervals s @ [(next_interval s, length (monitors s), 500)],
       next_interval := Suc (next_interval s),
       trace := trace s @
         [Listen (or_window ow s) (length (monitors s)) (next_key s),
          GetViewportSize (or_window ow s) (length (sizes s)),
          SetInterval (length (monitors s)) 500 (next_interval s)]\<rparr>)"
  using assms
  by (simp add: new_ViewportSizeMonitor_def Let_def update_def goog_events_listen_def
      goog_dom_getViewportSize_def window_setInterval_def isPollingRequired_window
      WINDOW_SIZE_POLL_RATE_def or_window_update or_window_Some host_needs_polling_update)

lemma new_ViewportSizeMonitor_no_polling:
  assumes "\<not> host_needs_polling s (or_window ow s)"
  shows "new_ViewportSizeMonitor ow s = Inr (length (monitors s),
     s\<lparr>monitors := monitors s @
         [\<lparr>disposed = False, subscribers = [], listenerKey = Some (next_key s),
           window = Some (or_window ow s), size' = Some (length (sizes s)),
           windowSizePollInterval = None\<rparr>],
       sizes := sizes s @ [viewport s (or_window ow s)],
       listeners := listeners s @ [(next_key s, or_window ow s, length (monitors s))],
       next_key := Suc (next_key s),
       trace := trace s @
         [Listen (or_window ow s) (length (monitors s)) (next_key s),
          GetViewportSize (or_window ow s) (length (sizes s))]\<rparr>)"
  using assms
  by (simp add: new_ViewportSizeMonitor_def Let_def update_def goog_events_listen_def
      goog_dom_getViewportSize_def window_setInterval_def isPollingRequired_window
      WINDOW_SIZE_POLL_RATE_def or_window_update or_window_Some host_needs_polling_update)

lemma getSize_Some:
  assumes "size' (monitors s ! r) = Some b"
  shows "getSize r s = (Some (length (sizes s)),
     s\<lparr>sizes := sizes s @ [\<lparr>width = width (sizes s ! b), height = height (sizes s ! b)\<rparr>]\<rparr>)"
  using assms by (simp add: getSize_def goog_math_Size_clone_def)

lemma getSize_None:
  assumes "size' (monitors s ! r) = None"
  shows "getSize r s = (None, s)"
  using assms by (simp add: getSize_def)

lemma checkForSizeChange_same:
  assumes "r < length (monitors s)" and "size' (monitors s ! r) = Some b"
    and "b < length (sizes s)"
    and "sizes s ! b = viewport s (or_window (window (monitors s ! r)) s)"
  shows "checkForSizeChange r s =
     s\<lparr>sizes := sizes s @ [viewport s (or_window (window (monitors s ! r)) s)],
       trace := trace s @
         [GetViewportSize (or_window (window (monitors s ! r)) s) (length (sizes s))]\<rparr>"
  using assms
  by (simp add: checkForSizeChange_def goog_dom_getViewportSize_def Let_def
      goog_math_Size_equals_def nth_append)

lemma checkForSizeChange_differs:
  assumes "r < length (monitors s)"
    and "case size' (monitors s ! r) of None \<Rightarrow> True
         | Some b \<Rightarrow> b < length (sizes s) \<and>
             sizes s ! b \<noteq> viewport s (or_window (window (monitors s ! r)) s)"
  shows "checkForSizeChange r s =
     s\<lparr>sizes := sizes s @ [viewport s (or_window (window (monitors s ! r)) s)],
       trace := trace s @
         [GetViewportSize (or_window (window (monitors s ! r)) s) (length (sizes s)),
          DispatchEvent r RESIZE (Some (viewport s (or_window (window (monitors s ! r)) s)))],
       monitors := (monitors s)[r := (monitors s ! r)\<lparr>size' := Some (length (sizes s))\<rparr>]\<rparr>"
proof (cases "size' (monitors s ! r)")
  case None
  with assms show ?thesis
  by (simp add: checkForSizeChange_def goog_dom_getViewportSize_def Let_def
      goog_math_Size_equals_def EventTarget_dispatchEvent_def update_def seen_size_def)
next
  case (Some b)
  with assms have "b < length (sizes s)" "sizes s ! b \<noteq> viewport s (or_window (window (monitors s ! r)) s)"
    by simp_all
  with assms(1) Some show ?thesis
  by (auto simp add: checkForSizeChange_def goog_dom_getViewportSize_def Let_def
      goog_math_Size_equals_def nth_append EventTarget_dispatchEvent_def update_def seen_size_def
      math_Size.equality)
qed

lemma listenerKey_update_None:
  "listenerKey m = None \<Longrightarrow> m\<lparr>listenerKey := None\<rparr> = m"
  by (cases m) simp

lemma windowSizePollInterval_update_None:
  "windowSizePollInterval m = None \<Longrightarrow> m\<lparr>windowSizePollInterval := None\<rparr> = m"
  by (cases m) simp

lemma disposeInternal_eq:
  assumes "r < length (monitors s)"
    and "listenerKey (monitors s ! r) \<noteq> Some 0"
    and "windowSizePollInterval (monitors s ! r) \<noteq> Some 0"
  shows "disposeInternal r s =
     s\<lparr>monitors := (monitors s)[r := (monitors s ! r)\<lparr>subscribers := [], listenerKey := None,
          windowSizePollInterval := None, window := None, size' := None\<rparr>],
       listeners := (case listenerKey (monitors s ! r) of None \<Rightarrow> listeners s
          | Some k \<Rightarrow> filter (\<lambda>(k', w, r). k' \<noteq> k) (listeners s)),
       intervals := (case windowSizePollInterval (monitors s ! r) of None \<Rightarrow> intervals s
          | Some i \<Rightarrow> filter (\<lambda>(i', r, rate). i' \<noteq> i) (intervals s)),
       trace := trace s @
         (case listenerKey (monitors s ! r) of None \<Rightarrow> [] | Some k \<Rightarrow> [UnlistenByKey k]) @
         (case windowSizePollInterval (monitors s ! r) of None \<Rightarrow> []
          | Some i \<Rightarrow> [ClearInterval i])\<rparr>"
proof (cases "listenerKey (monitors s ! r)")
  case None
  note k = this
  show ?thesis
  proof (cases "windowSizePollInterval (monitors s ! r)")
    case None
    with k None assms show ?thesis
      by (simp add: disposeInternal_def Let_def EventTarget_disposeInternal_def update_def
          truthy_def listenerKey_update_None windowSizePollInterval_update_None)
  next
    case (Some i)
    with k Some assms show ?thesis
      by (simp add: disposeInternal_def Let_def EventTarget_disposeInternal_def update_def
          truthy_def window_clearInterval_def listenerKey_update_None)
  qed
next
  case (Some k)
  note k = this
  show ?thesis
  proof (cases "windowSizePollInterval (monitors s ! r)")
    case None
    with k None assms show ?thesis
      by (simp add: disposeInternal_def Let_def EventTarget_disposeInternal_def update_def
          truthy_def goog_events_unlistenByKey_def windowSizePollInterval_update_None)
  next
    case (Some i)
    with k assms show ?thesis
      by (simp add: disposeInternal_def Let_def EventTarget_disposeInternal_def update_def
          truthy_def window_clearInterval_def goog_events_unlistenByKey_def)
  qed
qed

lemma getInstanceForWindow_registered:
  assumes "windowInstanceMap s (or_window ow s) = Some r"
  shows "getInstanceForWindow ow s = Inr (r, s)"
  using assms by (simp add: getInstanceForWindow_def goog_getUid_def Let_def map_upd_triv)

lemma getInstanceForWindow_new:
  assumes "windowInstanceMap s (or_window ow s) = None"
    and "new_ViewportSizeMonitor (Some (or_window ow s)) s = Inr (r, s')"
  shows "getInstanceForWindow ow s =
     Inr (r, s'\<lparr>windowInstanceMap := (windowInstanceMap s')(or_window ow s \<mapsto> r)\<rparr>)"
  using assms by (simp add: getInstanceForWindow_def goog_getUid_def Let_def)

section \<open>The invariant\<close>

lemma well_formed_initial: "well_formed (initial amb wk wn op nest vp)"
  by (simp add: well_formed_def initial_def)

lemma well_formed_host_resize: "well_formed s \<Longrightarrow> well_formed (host_resize w v s)"
  by (simp add: well_formed_def host_resize_def)

lemma well_formed_new_ViewportSizeMonitor:
  assumes "well_formed s" and "new_ViewportSizeMonitor ow s = Inr (r, s')"
  shows "well_formed s'"
proof (cases "host_needs_polling s (or_window ow s)")
  case True
  from assms(2) have s': "s' = snd (projr (new_ViewportSizeMonitor ow s))" by simp
  show ?thesis using assms(1) unfolding s' new_ViewportSizeMonitor_polling[OF True]
    by (auto simp add: well_formed_def nth_append less_Suc_eq)
next
  case False
  from assms(2) have s': "s' = snd (projr (new_ViewportSizeMonitor ow s))" by simp
  show ?thesis using assms(1) unfolding s' new_ViewportSizeMonitor_no_polling[OF False]
    by (auto simp add: well_formed_def nth_append less_Suc_eq)
qed

lemma in_set_list_update:
  "m \<in> set (xs[i := x]) \<Longrightarrow> m = x \<or> m \<in> set xs"
  using set_update_subset_insert[of xs i x] by auto

lemma new_ViewportSizeMonitor_total:
  "\<exists>s'. new_ViewportSizeMonitor ow s = Inr (length (monitors s), s')"
  by (cases "host_needs_polling s (or_window ow s)")
    (simp_all add: new_ViewportSizeMonitor_polling new_ViewportSizeMonitor_no_polling)

lemma well_formed_size_valid:
  "well_formed s \<Longrightarrow> r < length (monitors s) \<Longrightarrow> size' (monitors s ! r) = Some b \<Longrightarrow> b < length (sizes s)"
  by (auto simp add: well_formed_def)

lemma well_formed_handles:
  "well_formed s \<Longrightarrow> r < length (monitors s) \<Longrightarrow>
   listenerKey (monitors s ! r) \<noteq> Some 0 \<and> windowSizePollInterval (monitors s ! r) \<noteq> Some 0"
  by (auto simp add: well_formed_def)

lemma well_formed_checkForSizeChange:
  assumes "well_formed s" and "r < length (monitors s)"
  shows "well_formed (checkForSizeChange r s)"
proof (cases "\<exists>b. size' (monitors s ! r) = Some b \<and>
    sizes s ! b = viewport s (or_window (window (monitors s ! r)) s)")
  case True
  then obtain b where b: "size' (monitors s ! r) = Some b"
    "sizes s ! b = viewport s (or_window (window (monitors s ! r)) s)" by blast
  from well_formed_size_valid[OF assms b(1)] have "b < length (sizes s)" .
  from checkForSizeChange_same[OF assms(2) b(1) this b(2)] assms(1)
  show ?thesis by (auto simp add: well_formed_def less_Suc_eq)
next
  case False
  with assms have "case size' (monitors s ! r) of None \<Rightarrow> True
         | Some b \<Rightarrow> b < length (sizes s) \<and>
             sizes s ! b \<noteq> viewport s (or_window (window (monitors s ! r)) s)"
    by (auto split: option.splits dest: well_formed_size_valid)
  from checkForSizeChange_differs[OF assms(2) this] assms
  show ?thesis
    by (auto simp add: well_formed_def less_Suc_eq nth_list_update dest!: in_set_list_update)
qed

lemma well_formed_getSize: "well_formed s \<Longrightarrow> well_formed (snd (getSize r s))"
  by (cases "size' (monitors s ! r)")
    (auto simp add: getSize_Some getSize_None well_formed_def less_Suc_eq)

lemma well_formed_listener:
  "well_formed s \<Longrightarrow> (k, w, r) \<in> set (listeners s) \<Longrightarrow>
   k < next_key s \<and> r < length (monitors s) \<and> listenerKey (monitors s ! r) = Some k"
  by (auto simp add: well_formed_def)

lemma well_formed_interval:
  "well_formed s \<Longrightarrow> (i, r, rate) \<in> set (intervals s) \<Longrightarrow>
   i < next_interval s \<and> r < length (monitors s) \<and>
   windowSizePollInterval (monitors s ! r) = Some i"
  by (auto simp add: well_formed_def)

lemma well_formed_monitor:
  "well_formed s \<Longrightarrow> m \<in> set (monitors s) \<Longrightarrow>
   listenerKey m \<noteq> Some 0 \<and> windowSizePollInterval m \<noteq> Some 0 \<and>
   (\<forall>a. size' m = Some a \<longrightarrow> a < length (sizes s))"
  by (simp add: well_formed_def)

lemma well_formed_registry:
  "well_formed s \<Longrightarrow> windowInstanceMap s u = Some r \<Longrightarrow> r < length (monitors s)"
  "well_formed s \<Longrightarrow> windowInstanceMap s u = Some r \<Longrightarrow> windowInstanceMap s u' = Some r \<Longrightarrow> u = u'"
  by (auto simp add: well_formed_def)

lemma well_formed_counters: "well_formed s \<Longrightarrow> 0 < next_key s \<and> 0 < next_interval s"
  by (simp add: well_formed_def)

lemma well_formedI:
  assumes "0 < next_key s" and "0 < next_interval s"
    and "\<And>m. m \<in> set (monitors s) \<Longrightarrow>
      listenerKey m \<noteq> Some 0 \<and> windowSizePollInterval m \<noteq> Some 0 \<and>
      (\<forall>a. size' m = Some a \<longrightarrow> a < length (sizes s))"
    and "\<And>u r. windowInstanceMap s u = Some r \<Longrightarrow> r < length (monitors s)"
    and "\<And>u u' r. windowInstanceMap s u = Some r \<Longrightarrow> windowInstanceMap s u' = Some r \<Longrightarrow> u = u'"
    and "\<And>k w r. (k, w, r) \<in> set (listeners s) \<Longrightarrow>
      k < next_key s \<and> r < length (monitors s) \<and> listenerKey (monitors s ! r) = Some k"
    and "\<And>i r rate. (i, r, rate) \<in> set (intervals s) \<Longrightarrow>
      i < next_interval s \<and> r < length (monitors s) \<and>
      windowSizePollInterval (monitors s ! r) = Some i"
  shows "well_formed s"
proof -
  have m: "\<forall>m\<in>set (monitors s).
         listenerKey m \<noteq> Some 0 \<and> windowSizePollInterval m \<noteq> Some 0 \<and>
         (\<forall>a. size' m = Some a \<longrightarrow> a < length (sizes s))"
    using assms(3) by blast
  have r1: "\<forall>u r. windowInstanceMap s u = Some r \<longrightarrow> r < length (monitors s)"
    using assms(4) by blast
  have r2: "\<forall>u u' r. windowInstanceMap s u = Some r \<longrightarrow> windowInstanceMap s u' = Some r \<longrightarrow> u = u'"
    using assms(5) by blast
  have l: "\<forall>(k, w, r)\<in>set (listeners s).
         k < next_key s \<and> r < length (monitors s) \<and> listenerKey (monitors s ! r) = Some k"
    using assms(6) by (intro ballI) (simp only: split_paired_all case_prod_conv)
  have i: "\<forall>(i, r, rate)\<in>set (intervals s).
         i < next_interval s \<and> r < length (monitors s) \<and>
         windowSizePollInterval (monitors s ! r) = Some i"
    using assms(7) by (intro ballI) (simp only: split_paired_all case_prod_conv)
  from assms(1,2) m r1 r2 l i show ?thesis
    unfolding well_formed_def by (intro conjI)
qed

lemma well_formed_disposeInternal:
  assumes "well_formed s" and "r < length (monitors s)"
  shows "well_formed (disposeInternal r s)"
proof -
  note h = well_formed_handles[OF assms]
  define s' where "s' = disposeInternal r s"
  note eq = disposeInternal_eq[OF assms(2) h[THEN conjunct1] h[THEN conjunct2]]
  have ms: "monitors s' = (monitors s)[r := (monitors s ! r)\<lparr>subscribers := [],
      listenerKey := None, windowSizePollInterval := None, window := None, size' := None\<rparr>]"
    and ls: "listeners s' = (case listenerKey (monitors s ! r) of None \<Rightarrow> listeners s
          | Some k \<Rightarrow> filter (\<lambda>(k', w, r). k' \<noteq> k) (listeners s))"
    and iv: "intervals s' = (case windowSizePollInterval (monitors s ! r) of None \<Rightarrow> intervals s
          | Some i \<Rightarrow> filter (\<lambda>(i', r, rate). i' \<noteq> i) (intervals s))"
    and rest: "next_key s' = next_key s" "next_interval s' = next_interval s"
      "sizes s' = sizes s" "windowInstanceMap s' = windowInstanceMap s"
    by (simp_all add: s'_def eq)
  have "well_formed s'"
  proof (rule well_formedI)
    show "0 < next_key s'" "0 < next_interval s'"
      using well_formed_counters[OF assms(1)] by (simp_all add: rest)
  next
    fix m assume "m \<in> set (monitors s')"
    then have "m = (monitors s ! r)\<lparr>subscribers := [],
      listenerKey := None, windowSizePollInterval := None, window := None, size' := None\<rparr>
      \<or> m \<in> set (monitors s)"
      unfolding ms by (rule in_set_list_update)
    then show "listenerKey m \<noteq> Some 0 \<and> windowSizePollInterval m \<noteq> Some 0 \<and>
      (\<forall>a. size' m = Some a \<longrightarrow> a < length (sizes s'))"
      using well_formed_monitor[OF assms(1)] by (auto simp add: rest)
  next
    fix u r' assume "windowInstanceMap s' u = Some r'"
    then show "r' < length (monitors s')"
      using well_formed_registry(1)[OF assms(1)] by (simp add: rest ms)
  next
    fix u u' r' assume "windowInstanceMap s' u = Some r'" "windowInstanceMap s' u' = Some r'"
    then show "u = u'"
      using well_formed_registry(2)[OF assms(1)] by (simp add: rest)
  next
    fix k w r' assume in': "(k, w, r') \<in> set (listeners s')"
    then have in0: "(k, w, r') \<in> set (listeners s)"
      by (auto simp add: ls split: option.splits)
    note l = well_formed_listener[OF assms(1) in0]
    have "r' \<noteq> r"
    proof
      assume "r' = r"
      with l have "listenerKey (monitors s ! r) = Some k" by simp
      with in' show False by (simp add: ls)
    qed
    with l show "k < next_key s' \<and> r' < length (monitors s') \<and>
      listenerKey (monitors s' ! r') = Some k"
      by (simp add: rest ms)
  next
    fix i r' rate assume in': "(i, r', rate) \<in> set (intervals s')"
    then have in0: "(i, r', rate) \<in> set (intervals s)"
      by (auto simp add: iv split: option.splits)
    note l = well_formed_interval[OF assms(1) in0]
    have "r' \<noteq> r"
    proof
      assume "r' = r"
      with l have "windowSizePollInterval (monitors s ! r) = Some i" by simp
      with in' show False by (simp add: iv)
    qed
    with l show "i < next_interval s' \<and> r' < length (monitors s') \<and>
      windowSizePollInterval (monitors s' ! r') = Some i"
      by (simp add: rest ms)
  qed
  then show ?thesis by (simp add: s'_def)
qed

section \<open>Disposal\<close>

lemma length_monitors_disposeInternal:
  "well_formed s \<Longrightarrow> r < length (monitors s) \<Longrightarrow>
   length (monitors (disposeInternal r s)) = length (monitors s)"
  using well_formed_handles[of s r] by (simp add: disposeInternal_eq)

lemma disposeInternal_fields:
  assumes "well_formed s" and "r < length (monitors s)"
  shows "monitors (disposeInternal r s) ! r =
     (monitors s ! r)\<lparr>subscribers := [], listenerKey := None,
        windowSizePollInterval := None, window := None, size' := None\<rparr>"
  using well_formed_handles[OF assms] assms(2) by (simp add: disposeInternal_eq)

lemma disposeInternal_trace:
  assumes "well_formed s" and "r < length (monitors s)"
  shows "trace (disposeInternal r s) = trace s @
         (case listenerKey (monitors s ! r) of None \<Rightarrow> [] | Some k \<Rightarrow> [UnlistenByKey k]) @
         (case windowSizePollInterval (monitors s ! r) of None \<Rightarrow> []
          | Some i \<Rightarrow> [ClearInterval i])"
  using well_formed_handles[OF assms] assms(2) by (simp add: disposeInternal_eq)

lemma disposeInternal_idem:
  assumes "well_formed s" and "r < length (monitors s)"
  shows "disposeInternal r (disposeInternal r s) = disposeInternal r s"
proof -
  define s1 where "s1 = disposeInternal r s"
  have wf1: "well_formed s1" and len: "r < length (monitors s1)"
    using assms by (simp_all add: s1_def well_formed_disposeInternal length_monitors_disposeInternal)
  have m1: "monitors s1 ! r = (monitors s ! r)\<lparr>subscribers := [], listenerKey := None,
        windowSizePollInterval := None, window := None, size' := None\<rparr>"
    using assms by (simp add: s1_def disposeInternal_fields)
  have "(monitors s1)[r := (monitors s1 ! r)\<lparr>subscribers := [], listenerKey := None,
        windowSizePollInterval := None, window := None, size' := None\<rparr>] = monitors s1"
    by (simp add: m1 list_update_same_conv[OF len])
  then have "disposeInternal r s1 = s1"
    using well_formed_handles[OF wf1 len] len by (simp add: disposeInternal_eq m1)
  then show ?thesis by (simp add: s1_def)
qed

lemma disposeInternal_unhooks:
  assumes "well_formed s" and "r < length (monitors s)"
  shows "(k, w, r) \<notin> set (listeners (disposeInternal r s)) \<and>
         (i, r, rate) \<notin> set (intervals (disposeInternal r s))"
proof -
  have wf1: "well_formed (disposeInternal r s)" using assms by (rule well_formed_disposeInternal)
  have m1: "listenerKey (monitors (disposeInternal r s) ! r) = None"
    "windowSizePollInterval (monitors (disposeInternal r s) ! r) = None"
    using assms by (simp_all add: disposeInternal_fields)
  show ?thesis using well_formed_listener[OF wf1, of k w r] well_formed_interval[OF wf1, of i r rate] m1 by auto
qed

lemma well_formed_update_disposed:
  assumes "well_formed s" and "r < length (monitors s)"
  shows "well_formed (update r (\<lambda>m. m\<lparr>disposed := True\<rparr>) s)"
proof -
  have ms: "monitors (update r (\<lambda>m. m\<lparr>disposed := True\<rparr>) s) =
     (monitors s)[r := (monitors s ! r)\<lparr>disposed := True\<rparr>]"
    by (simp add: update_def)
  show ?thesis
  proof (rule well_formedI)
    fix m assume "m \<in> set (monitors (update r (\<lambda>m. m\<lparr>disposed := True\<rparr>) s))"
    then have "m = (monitors s ! r)\<lparr>disposed := True\<rparr> \<or> m \<in> set (monitors s)"
      unfolding ms by (rule in_set_list_update)
    then show "listenerKey m \<noteq> Some 0 \<and> windowSizePollInterval m \<noteq> Some 0 \<and>
      (\<forall>a. size' m = Some a \<longrightarrow> a < length (sizes (update r (\<lambda>m. m\<lparr>disposed := True\<rparr>) s)))"
      using well_formed_monitor[OF assms(1), of m] well_formed_monitor[OF assms(1), of "monitors s ! r"] assms(2)
      by (auto simp add: update_def)
  qed (use assms in \<open>auto simp add: update_def nth_list_update dest: well_formed_counters well_formed_registry well_formed_listener well_formed_interval\<close>)
qed

lemma dispose_eq:
  "\<not> disposed (monitors s ! r) \<Longrightarrow>
   dispose r s = disposeInternal r (update r (\<lambda>m. m\<lparr>disposed := True\<rparr>) s)"
  "disposed (monitors s ! r) \<Longrightarrow> dispose r s = s"
  by (simp_all add: dispose_def)

text \<open>
  C4: disposal is idempotent. After the first \<open>dispose\<close> of a monitor, a second
  \<open>dispose\<close> changes nothing at all, and neither does \<open>disposeInternal\<close> run again
  without the guard of the flag: no second \<^verbatim>\<open>unlistenByKey\<close>, no second
  \<^verbatim>\<open>clearInterval\<close>, no fault. The first disposal unsubscribes once and cancels the timer
  once (when there is one), the listener key, the timer handle, the window and the
  cached size are absent afterwards, and the host keeps no resize listener and no timer
  of the monitor.
\<close>

theorem dispose_twice:
  assumes "well_formed s" and "r < length (monitors s)" and "\<not> disposed (monitors s ! r)"
  shows "dispose r (dispose r s) = dispose r s \<and>
         disposeInternal r (dispose r s) = dispose r s \<and>
         trace (dispose r s) = trace s @
           (case listenerKey (monitors s ! r) of None \<Rightarrow> [] | Some k \<Rightarrow> [UnlistenByKey k]) @
           (case windowSizePollInterval (monitors s ! r) of None \<Rightarrow> []
            | Some i \<Rightarrow> [ClearInterval i]) \<and>
         disposed (monitors (dispose r s) ! r) \<and>
         listenerKey (monitors (dispose r s) ! r) = None \<and>
         windowSizePollInterval (monitors (dispose r s) ! r) = None \<and>
         window (monitors (dispose r s) ! r) = None \<and>
         size' (monitors (dispose r s) ! r) = None \<and>
         (k, w, r) \<notin> set (listeners (dispose r s)) \<and>
         (i, r, rate) \<notin> set (intervals (dispose r s))"
proof -
  define s0 where "s0 = update r (\<lambda>m. m\<lparr>disposed := True\<rparr>) s"
  have wf0: "well_formed s0" and len0: "r < length (monitors s0)"
    and m0: "monitors s0 ! r = (monitors s ! r)\<lparr>disposed := True\<rparr>"
    and tr0: "trace s0 = trace s"
    using assms by (simp_all add: s0_def well_formed_update_disposed) (simp_all add: update_def)
  have d: "dispose r s = disposeInternal r s0"
    using assms(3) by (simp add: dispose_eq s0_def)
  have m1: "monitors (disposeInternal r s0) ! r =
     (monitors s ! r)\<lparr>disposed := True, subscribers := [], listenerKey := None,
        windowSizePollInterval := None, window := None, size' := None\<rparr>"
    by (simp add: disposeInternal_fields[OF wf0 len0] m0)
  have "dispose r (dispose r s) = dispose r s"
    by (simp add: d dispose_eq(2) m1)
  moreover have "disposeInternal r (dispose r s) = dispose r s"
    by (simp add: d disposeInternal_idem[OF wf0 len0])
  moreover have "trace (dispose r s) = trace s @
           (case listenerKey (monitors s ! r) of None \<Rightarrow> [] | Some k \<Rightarrow> [UnlistenByKey k]) @
           (case windowSizePollInterval (monitors s ! r) of None \<Rightarrow> []
            | Some i \<Rightarrow> [ClearInterval i])"
    by (simp add: d disposeInternal_trace[OF wf0 len0] m0 tr0)
  moreover have "(k, w, r) \<notin> set (listeners (dispose r s)) \<and>
         (i, r, rate) \<notin> set (intervals (dispose r s))"
    unfolding d by (rule disposeInternal_unhooks[OF wf0 len0])
  ultimately show ?thesis by (simp add: d m1)
qed

section \<open>Checking for a size change\<close>

lemma active_size:
  "active r s \<Longrightarrow> \<exists>b. size' (monitors s ! r) = Some b \<and> b < length (sizes s) \<and>
     seen_size r s = Some (sizes s ! b)"
  by (auto simp add: active_def seen_size_def split: option.splits)

lemma notifications_append:
  "trace s' = trace s @ es \<Longrightarrow> notifications s' = notifications s @ filter is_dispatch es"
  by (simp add: notifications_def)

text \<open>
  C1: a call of \<open>checkForSizeChange\<close> on an active monitor measures the window into a
  new Size object and compares its width and height with the stored size. When they
  differ, the stored size is replaced first and one resize event is dispatched then: the
  trace gains the measurement and exactly one \<open>DispatchEvent\<close>, whose subscribers already
  read the new size, and \<open>getSize\<close> returns a copy of the new measurement from then on.
\<close>

theorem checkForSizeChange_notifies_change:
  assumes "active r s" and "window (monitors s ! r) = Some w"
  shows "let s' = checkForSizeChange r s; a = length (sizes s); v = viewport s w in
     sizes s' = sizes s @ [v] \<and>
     (if seen_size r s = Some v
      then trace s' = trace s @ [GetViewportSize w a] \<and> monitors s' = monitors s
      else trace s' = trace s @ [GetViewportSize w a, DispatchEvent r RESIZE (Some v)] \<and>
           notifications s' = notifications s @ [DispatchEvent r RESIZE (Some v)] \<and>
           monitors s' = (monitors s)[r := (monitors s ! r)\<lparr>size' := Some a\<rparr>] \<and>
           seen_size r s' = Some v \<and>
           fst (getSize r s') = Some (Suc a) \<and>
           sizes (snd (getSize r s')) ! Suc a = v \<and>
           active r s')"
proof -
  from active_size[OF assms(1)] obtain b where b: "size' (monitors s ! r) = Some b"
    "b < length (sizes s)" "seen_size r s = Some (sizes s ! b)" by blast
  from assms(1) have len: "r < length (monitors s)" by (simp add: active_def)
  have ow: "or_window (window (monitors s ! r)) s = w"
    by (simp add: assms(2) or_window_def)
  show ?thesis
  proof (cases "sizes s ! b = viewport s w")
    case True
    with checkForSizeChange_same[OF len b(1,2)] b(3) show ?thesis
      by (simp add: ow Let_def)
  next
    case False
    then have "case size' (monitors s ! r) of None \<Rightarrow> True
         | Some b \<Rightarrow> b < length (sizes s) \<and>
             sizes s ! b \<noteq> viewport s (or_window (window (monitors s ! r)) s)"
      by (simp add: b ow)
    note eq = checkForSizeChange_differs[OF len this, unfolded ow]
    define s' where "s' = checkForSizeChange r s"
    have f: "sizes s' = sizes s @ [viewport s w]"
      "trace s' = trace s @ [GetViewportSize w (length (sizes s)),
          DispatchEvent r RESIZE (Some (viewport s w))]"
      "monitors s' = (monitors s)[r := (monitors s ! r)\<lparr>size' := Some (length (sizes s))\<rparr>]"
      by (simp_all add: s'_def eq)
    have sz: "size' (monitors s' ! r) = Some (length (sizes s))"
      using len by (simp add: f)
    have seen: "seen_size r s' = Some (viewport s w)"
      by (simp add: seen_size_def sz) (simp add: f)
    have act: "active r s'"
      using assms(1) len by (simp add: active_def f)
    have gs: "getSize r s' = (Some (Suc (length (sizes s))),
       s'\<lparr>sizes := sizes s' @ [\<lparr>width = width (viewport s w), height = height (viewport s w)\<rparr>]\<rparr>)"
      using getSize_Some[OF sz] by (simp add: f)
    have "notifications s' = notifications s @ [DispatchEvent r RESIZE (Some (viewport s w))]"
      using notifications_append[OF f(2)] by simp
    with False b(3) f seen act show ?thesis
      unfolding s'_def[symmetric] Let_def by (simp add: gs nth_append)
  qed
qed

lemma checkForSizeChange_unchanged:
  assumes "active r s" and "window (monitors s ! r) = Some w"
    and "seen_size r s = Some (viewport s w)"
  shows "monitors (checkForSizeChange r s) = monitors s \<and>
    notifications (checkForSizeChange r s) = notifications s \<and>
    seen_size r (checkForSizeChange r s) = Some (viewport s w) \<and>
    active r (checkForSizeChange r s) \<and>
    viewport (checkForSizeChange r s) = viewport s \<and>
    intervals (checkForSizeChange r s) = intervals s \<and>
    listeners (checkForSizeChange r s) = listeners s \<and>
    length (trace (checkForSizeChange r s)) = Suc (length (trace s))"
proof -
  from active_size[OF assms(1)] obtain b where b: "size' (monitors s ! r) = Some b"
    "b < length (sizes s)" "seen_size r s = Some (sizes s ! b)" by blast
  from assms(1) have len: "r < length (monitors s)" by (simp add: active_def)
  have ow: "or_window (window (monitors s ! r)) s = w"
    by (simp add: assms(2) or_window_def)
  from b(3) assms(3) have c: "sizes s ! b = viewport s (or_window (window (monitors s ! r)) s)"
    by (simp add: ow)
  note eq = checkForSizeChange_same[OF len b(1,2) c, unfolded ow]
  show ?thesis using assms(1) b c[unfolded ow]
    by (simp add: eq notifications_def seen_size_def active_def nth_append)
qed

text \<open>
  C2: in a run of checks in which every measurement equals the stored size, no resize
  event is dispatched and no field of any monitor changes; each check still measures
  (one trace entry for each).
\<close>

theorem checks_equal_measurements_silent:
  assumes "active r s" and "window (monitors s ! r) = Some w"
    and "seen_size r s = Some v" and "set vs \<subseteq> {v}"
  shows "monitors (checks r w vs s) = monitors s \<and>
         seen_size r (checks r w vs s) = Some v \<and>
         notifications (checks r w vs s) = notifications s \<and>
         length (trace (checks r w vs s)) = length (trace s) + length vs"
  using assms
proof (induction vs arbitrary: s)
  case Nil
  then show ?case by simp
next
  case (Cons x vs)
  define s1 where "s1 = host_resize w x s"
  have x: "x = v" using Cons.prems(4) by simp
  have a1: "active r s1" "window (monitors s1 ! r) = Some w"
    "seen_size r s1 = Some (viewport s1 w)" "monitors s1 = monitors s"
    "notifications s1 = notifications s" "trace s1 = trace s"
    using Cons.prems(1-3) x
    by (auto simp add: s1_def host_resize_def active_def seen_size_def notifications_def
        split: option.splits)
  note u = checkForSizeChange_unchanged[OF a1(1-3)]
  have v1: "viewport s1 w = v" by (simp add: s1_def host_resize_def x)
  have "monitors (checks r w vs (checkForSizeChange r s1)) = monitors (checkForSizeChange r s1) \<and>
         seen_size r (checks r w vs (checkForSizeChange r s1)) = Some v \<and>
         notifications (checks r w vs (checkForSizeChange r s1)) = notifications (checkForSizeChange r s1) \<and>
         length (trace (checks r w vs (checkForSizeChange r s1))) =
           length (trace (checkForSizeChange r s1)) + length vs"
    using u a1 v1 Cons.prems(4) by (intro Cons.IH) simp_all
  with u a1 show ?case by (simp add: s1_def[symmetric])
qed

section \<open>Reading the size\<close>

lemma getSize_copy_frame:
  assumes "well_formed s" and "r < length (monitors s)"
  shows "monitors (snd (getSize r s)) = monitors s \<and>
     trace (snd (getSize r s)) = trace s \<and>
     windowInstanceMap (snd (getSize r s)) = windowInstanceMap s \<and>
     listeners (snd (getSize r s)) = listeners s \<and>
     intervals (snd (getSize r s)) = intervals s \<and>
     take (length (sizes s)) (sizes (snd (getSize r s))) = sizes s \<and>
     (fst (getSize r s) = None \<longleftrightarrow> size' (monitors s ! r) = None) \<and>
     (case fst (getSize r s) of
        None \<Rightarrow> snd (getSize r s) = s
      | Some c \<Rightarrow>
          c = length (sizes s) \<and> size' (monitors s ! r) \<noteq> Some c \<and>
          Some (sizes (snd (getSize r s)) ! c) = seen_size r s \<and>
          seen_size r (set_Size c wd ht (snd (getSize r s))) = seen_size r s \<and>
          monitors (set_Size c wd ht (snd (getSize r s))) = monitors s) \<and>
     fst (getSize r (disposeInternal r s)) = None"
proof -
  have d: "fst (getSize r (disposeInternal r s)) = None"
    using disposeInternal_fields[OF assms] by (simp add: getSize_None)
  show ?thesis
  proof (cases "size' (monitors s ! r)")
    case None
    with d show ?thesis by (simp add: getSize_None)
  next
    case (Some b)
    from well_formed_size_valid[OF assms Some] have b: "b < length (sizes s)" .
    with d Some show ?thesis
      by (simp add: getSize_Some seen_size_def set_Size_def nth_append)
  qed
qed

lemma new_ViewportSizeMonitor_desktop:
  "new_ViewportSizeMonitor None desktop = Inr (0,
     desktop\<lparr>monitors := [\<lparr>disposed = False, subscribers = [], listenerKey = Some 1,
           window = Some 0, size' = Some 0, windowSizePollInterval = None\<rparr>],
       sizes := [\<lparr>width = 1024, height = 768\<rparr>],
       listeners := [(1, 0, 0)],
       next_key := 2,
       trace := [Listen 0 0 1, GetViewportSize 0 0]\<rparr>)"
proof -
  have "\<not> host_needs_polling desktop (or_window None desktop)"
    by (simp add: host_needs_polling_def desktop_def initial_def)
  from new_ViewportSizeMonitor_no_polling[OF this] show ?thesis
    by (simp add: desktop_def initial_def or_window_def)
qed

lemma new_ViewportSizeMonitor_polling_desktop:
  "new_ViewportSizeMonitor None polling_desktop = Inr (0,
     polling_desktop\<lparr>monitors := [\<lparr>disposed = False, subscribers = [], listenerKey = Some 1,
           window = Some 0, size' = Some 0, windowSizePollInterval = Some 1\<rparr>],
       sizes := [\<lparr>width = 1024, height = 768\<rparr>],
       listeners := [(1, 0, 0)],
       next_key := 2,
       intervals := [(1, 0, 500)],
       next_interval := 2,
       trace := [Listen 0 0 1, GetViewportSize 0 0, SetInterval 0 500 1]\<rparr>)"
proof -
  have "host_needs_polling polling_desktop (or_window None polling_desktop)"
    by (simp add: host_needs_polling_def polling_desktop_def initial_def)
  from new_ViewportSizeMonitor_polling[OF this] show ?thesis
    by (simp add: polling_desktop_def initial_def or_window_def)
qed

lemma well_formed_desktop: "well_formed desktop" "well_formed polling_desktop"
  by (simp_all add: desktop_def polling_desktop_def well_formed_initial)

lemma dispose_monitored_desktop:
  "dispose 0 monitored_desktop =
     desktop\<lparr>monitors := [\<lparr>disposed = True, subscribers = [], listenerKey = None,
           window = None, size' = None, windowSizePollInterval = None\<rparr>],
       sizes := [\<lparr>width = 1024, height = 768\<rparr>],
       listeners := [],
       next_key := 2,
       trace := [Listen 0 0 1, GetViewportSize 0 0, UnlistenByKey 1]\<rparr>"
  by (simp add: monitored_desktop_def new_ViewportSizeMonitor_desktop dispose_def
      disposeInternal_def update_def EventTarget_disposeInternal_def truthy_def
      goog_events_unlistenByKey_def window_clearInterval_def Let_def)

section \<open>The host fires the resize event\<close>

lemma checkForSizeChange_frame:
  assumes "well_formed s" and "r' < length (monitors s)"
  shows "length (monitors (checkForSizeChange r' s)) = length (monitors s) \<and>
    (\<exists>m. monitors (checkForSizeChange r' s) = (monitors s)[r' := m] \<and>
         disposed m = disposed (monitors s ! r') \<and> window m = window (monitors s ! r') \<and>
         listenerKey m = listenerKey (monitors s ! r') \<and>
         windowSizePollInterval m = windowSizePollInterval (monitors s ! r')) \<and>
    (\<exists>x. sizes (checkForSizeChange r' s) = sizes s @ [x]) \<and>
    (\<exists>es. trace (checkForSizeChange r' s) = trace s @ es) \<and>
    viewport (checkForSizeChange r' s) = viewport s \<and>
    listeners (checkForSizeChange r' s) = listeners s \<and>
    intervals (checkForSizeChange r' s) = intervals s"
proof (cases "\<exists>b. size' (monitors s ! r') = Some b \<and>
    sizes s ! b = viewport s (or_window (window (monitors s ! r')) s)")
  case True
  then obtain b where b: "size' (monitors s ! r') = Some b"
    "sizes s ! b = viewport s (or_window (window (monitors s ! r')) s)" by blast
  from well_formed_size_valid[OF assms b(1)] have "b < length (sizes s)" .
  from checkForSizeChange_same[OF assms(2) b(1) this b(2)]
  show ?thesis
    by (auto intro!: exI[of _ "monitors s ! r'"])
next
  case False
  with assms have "case size' (monitors s ! r') of None \<Rightarrow> True
         | Some b \<Rightarrow> b < length (sizes s) \<and>
             sizes s ! b \<noteq> viewport s (or_window (window (monitors s ! r')) s)"
    by (auto split: option.splits dest: well_formed_size_valid)
  from checkForSizeChange_differs[OF assms(2) this]
  show ?thesis
    by (auto intro!: exI[of _ "(monitors s ! r')\<lparr>size' := Some (length (sizes s))\<rparr>"])
qed

lemma checkForSizeChange_other:
  assumes "well_formed s" and "r' < length (monitors s)" and "r \<noteq> r'"
    and "active r s" and "window (monitors s ! r) = Some w"
  shows "active r (checkForSizeChange r' s) \<and>
    window (monitors (checkForSizeChange r' s) ! r) = Some w \<and>
    seen_size r (checkForSizeChange r' s) = seen_size r s"
proof -
  from checkForSizeChange_frame[OF assms(1,2)] obtain m x where
    f: "monitors (checkForSizeChange r' s) = (monitors s)[r' := m]"
       "sizes (checkForSizeChange r' s) = sizes s @ [x]" by blast
  from active_size[OF assms(4)] obtain b where b: "size' (monitors s ! r) = Some b"
    "b < length (sizes s)" by blast
  show ?thesis using assms(3-5) b
    by (simp add: active_def seen_size_def f nth_append)
qed

lemma checkForSizeChange_own:
  assumes "active r s" and "window (monitors s ! r) = Some w"
  shows "active r (checkForSizeChange r s) \<and>
    window (monitors (checkForSizeChange r s) ! r) = Some w \<and>
    seen_size r (checkForSizeChange r s) = Some (viewport s w) \<and>
    (seen_size r s \<noteq> Some (viewport s w) \<longrightarrow>
       DispatchEvent r RESIZE (Some (viewport s w)) \<in> set (trace (checkForSizeChange r s)))"
proof (cases "seen_size r s = Some (viewport s w)")
  case True
  from checkForSizeChange_unchanged[OF assms True] assms(2) True show ?thesis by simp
next
  case False
  from active_size[OF assms(1)] obtain b where b: "size' (monitors s ! r) = Some b"
    "b < length (sizes s)" "seen_size r s = Some (sizes s ! b)" by blast
  from assms(1) have len: "r < length (monitors s)" by (simp add: active_def)
  have ow: "or_window (window (monitors s ! r)) s = w"
    by (simp add: assms(2) or_window_def)
  from False b have "case size' (monitors s ! r) of None \<Rightarrow> True
         | Some b \<Rightarrow> b < length (sizes s) \<and>
             sizes s ! b \<noteq> viewport s (or_window (window (monitors s ! r)) s)"
    by (simp add: ow)
  note eq = checkForSizeChange_differs[OF len this, unfolded ow]
  show ?thesis using assms len
    by (simp add: eq active_def seen_size_def)
qed

lemma handle_step:
  assumes "well_formed s" and "active r s" and "window (monitors s ! r) = Some w"
    and "r' < length (monitors s)"
  shows "well_formed (if w' = w then handleResize r' s else s) \<and>
    active r (if w' = w then handleResize r' s else s) \<and>
    window (monitors (if w' = w then handleResize r' s else s) ! r) = Some w \<and>
    viewport (if w' = w then handleResize r' s else s) = viewport s \<and>
    length (monitors (if w' = w then handleResize r' s else s)) = length (monitors s) \<and>
    set (trace s) \<subseteq> set (trace (if w' = w then handleResize r' s else s)) \<and>
    (seen_size r s = Some (viewport s w) \<longrightarrow>
       seen_size r (if w' = w then handleResize r' s else s) = Some (viewport s w)) \<and>
    (seen_size r (if w' = w then handleResize r' s else s) \<noteq> seen_size r s \<longrightarrow>
       DispatchEvent r RESIZE (Some (viewport s w))
         \<in> set (trace (if w' = w then handleResize r' s else s))) \<and>
    (w' = w \<and> r' = r \<longrightarrow>
       seen_size r (if w' = w then handleResize r' s else s) = Some (viewport s w))"
proof (cases "w' = w")
  case False
  with assms show ?thesis by simp
next
  case True
  note fr = checkForSizeChange_frame[OF assms(1,4)]
  from fr obtain es where es: "trace (checkForSizeChange r' s) = trace s @ es" by blast
  have wf': "well_formed (checkForSizeChange r' s)" using assms(1,4) by (rule well_formed_checkForSizeChange)
  show ?thesis
  proof (cases "r' = r")
    case False
    then have "r \<noteq> r'" by simp
    from checkForSizeChange_other[OF assms(1,4) this assms(2,3)] fr wf' es True False
    show ?thesis by (simp add: handleResize_def)
  next
    case r: True
    from checkForSizeChange_own[OF assms(2,3)] fr wf' es True r
    show ?thesis by (auto simp add: handleResize_def)
  qed
qed

lemma fire_fold:
  assumes "well_formed s" and "active r s" and "window (monitors s ! r) = Some w"
    and "\<And>k w' r'. (k, w', r') \<in> set ls \<Longrightarrow> r' < length (monitors s)"
  shows "active r (fold (\<lambda>(k, w', r') s'. if w' = w then handleResize r' s' else s') ls s) \<and>
    set (trace s) \<subseteq> set (trace (fold (\<lambda>(k, w', r') s'. if w' = w then handleResize r' s' else s') ls s)) \<and>
    (seen_size r s = Some (viewport s w) \<longrightarrow>
       seen_size r (fold (\<lambda>(k, w', r') s'. if w' = w then handleResize r' s' else s') ls s)
         = Some (viewport s w)) \<and>
    ((k, w, r) \<in> set ls \<longrightarrow>
       seen_size r (fold (\<lambda>(k, w', r') s'. if w' = w then handleResize r' s' else s') ls s)
         = Some (viewport s w) \<and>
       (seen_size r s \<noteq> Some (viewport s w) \<longrightarrow>
          DispatchEvent r RESIZE (Some (viewport s w))
            \<in> set (trace (fold (\<lambda>(k, w', r') s'. if w' = w then handleResize r' s' else s') ls s))))"
  using assms
proof (induction ls arbitrary: s)
  case Nil
  then show ?case by simp
next
  case (Cons x ls)
  obtain k' w' r' where x: "x = (k', w', r')" by (cases x)
  define s1 where "s1 = (if w' = w then handleResize r' s else s)"
  define F where "F = fold (\<lambda>(k, w', r') s'. if w' = w then handleResize r' s' else s') ls s1"
  define D where "D = DispatchEvent r RESIZE (Some (viewport s w))"
  have r': "r' < length (monitors s)" using Cons.prems(4)[of k' w' r'] by (simp add: x)
  note st = handle_step[OF Cons.prems(1-3) r', of w', folded s1_def]
  have rest: "\<And>k w' r'. (k, w', r') \<in> set ls \<Longrightarrow> r' < length (monitors s1)"
  proof -
    fix k'' w'' r'' assume "(k'', w'', r'') \<in> set ls"
    then have "r'' < length (monitors s)" using Cons.prems(4)[of k'' w'' r''] by simp
    with st show "r'' < length (monitors s1)" by simp
  qed
  from st have p: "well_formed s1" "active r s1" "window (monitors s1 ! r) = Some w" by simp_all
  have v: "viewport s1 w = viewport s w" using st by simp
  note ih = Cons.IH[OF p rest, unfolded v, folded F_def D_def]
  have f: "fold (\<lambda>(k, w', r') s'. if w' = w then handleResize r' s' else s') (x # ls) s = F"
    by (simp add: x s1_def F_def)
  from ih have a1: "active r F" and a2: "set (trace s1) \<subseteq> set (trace F)"
    and a3: "seen_size r s1 = Some (viewport s w) \<Longrightarrow> seen_size r F = Some (viewport s w)"
    and a4: "(k, w, r) \<in> set ls \<Longrightarrow> seen_size r F = Some (viewport s w)"
    and a5: "(k, w, r) \<in> set ls \<Longrightarrow> seen_size r s1 \<noteq> Some (viewport s w) \<Longrightarrow> D \<in> set (trace F)"
    by simp_all
  from st have b1: "set (trace s) \<subseteq> set (trace s1)"
    and b2: "seen_size r s = Some (viewport s w) \<Longrightarrow> seen_size r s1 = Some (viewport s w)"
    and b3: "seen_size r s1 \<noteq> seen_size r s \<Longrightarrow> D \<in> set (trace s1)"
    and b4: "w' = w \<Longrightarrow> r' = r \<Longrightarrow> seen_size r s1 = Some (viewport s w)"
    by (simp_all add: D_def)
  have g2: "set (trace s) \<subseteq> set (trace F)" using a2 b1 by blast
  have g3: "seen_size r s = Some (viewport s w) \<longrightarrow> seen_size r F = Some (viewport s w)"
    using a3 b2 by blast
  have g4: "seen_size r F = Some (viewport s w) \<and>
       (seen_size r s \<noteq> Some (viewport s w) \<longrightarrow> D \<in> set (trace F))"
    if "(k, w, r) \<in> set (x # ls)"
  proof (cases "(k, w, r) \<in> set ls")
    case True
    have "D \<in> set (trace F)" if n: "seen_size r s \<noteq> Some (viewport s w)"
    proof (cases "seen_size r s1 = seen_size r s")
      case True
      with n have "seen_size r s1 \<noteq> Some (viewport s w)" by simp
      with a5 \<open>(k, w, r) \<in> set ls\<close> show ?thesis by blast
    next
      case False
      with b3 a2 show ?thesis by blast
    qed
    with a4 True show ?thesis by blast
  next
    case False
    with that have "w' = w" "r' = r" by (simp_all add: x)
    with b4 have s1: "seen_size r s1 = Some (viewport s w)" by blast
    have "D \<in> set (trace F)" if n: "seen_size r s \<noteq> Some (viewport s w)"
    proof -
      from n s1 have "seen_size r s1 \<noteq> seen_size r s" by simp
      with b3 a2 show ?thesis by blast
    qed
    with a3 s1 show ?thesis by blast
  qed
  show ?case unfolding f D_def[symmetric] using a1 g2 g3 g4 by blast
qed

lemma fire_resize_notifies:
  assumes "well_formed s" and "active r s" and "window (monitors s ! r) = Some w"
    and "(k, w, r) \<in> set (listeners s)"
  shows "active r (fire_resize w s) \<and>
    seen_size r (fire_resize w s) = Some (viewport s w) \<and>
    (seen_size r s \<noteq> Some (viewport s w) \<longrightarrow>
       DispatchEvent r RESIZE (Some (viewport s w)) \<in> set (trace (fire_resize w s)))"
proof -
  have "\<And>k w' r'. (k, w', r') \<in> set (listeners s) \<Longrightarrow> r' < length (monitors s)"
    using well_formed_listener[OF assms(1)] by blast
  from fire_fold[OF assms(1-3) this, where ls = "listeners s" and k = k] assms(4)
  show ?thesis by (simp add: fire_resize_def)
qed

section \<open>Construction\<close>

lemma host_resize_fields:
  "active r (host_resize w v s) = active r s"
  "seen_size r (host_resize w v s) = seen_size r s"
  "monitors (host_resize w v s) = monitors s"
  "listeners (host_resize w v s) = listeners s"
  "intervals (host_resize w v s) = intervals s"
  "trace (host_resize w v s) = trace s"
  "viewport (host_resize w v s) w = v"
  by (simp_all add: host_resize_def active_def seen_size_def cong: option.case_cong)

lemma new_ViewportSizeMonitor_fields:
  "\<exists>s'. new_ViewportSizeMonitor ow s = Inr (length (monitors s), s') \<and>
     monitors s' = monitors s @
       [\<lparr>disposed = False, subscribers = [], listenerKey = Some (next_key s),
         window = Some (or_window ow s), size' = Some (length (sizes s)),
         windowSizePollInterval =
           (if host_needs_polling s (or_window ow s) then Some (next_interval s) else None)\<rparr>] \<and>
     sizes s' = sizes s @ [viewport s (or_window ow s)] \<and>
     listeners s' = listeners s @ [(next_key s, or_window ow s, length (monitors s))] \<and>
     next_key s' = Suc (next_key s) \<and>
     intervals s' = intervals s @
       (if host_needs_polling s (or_window ow s)
        then [(next_interval s, length (monitors s), 500)] else []) \<and>
     next_interval s' =
       (if host_needs_polling s (or_window ow s) then Suc (next_interval s) else next_interval s) \<and>
     trace s' = trace s @
       [Listen (or_window ow s) (length (monitors s)) (next_key s),
        GetViewportSize (or_window ow s) (length (sizes s))] @
       (if host_needs_polling s (or_window ow s)
        then [SetInterval (length (monitors s)) 500 (next_interval s)] else []) \<and>
     windowInstanceMap s' = windowInstanceMap s \<and> viewport s' = viewport s \<and>
     ambient s' = ambient s"
proof (cases "host_needs_polling s (or_window ow s)")
  case True
  show ?thesis unfolding new_ViewportSizeMonitor_polling[OF True] using True by simp
next
  case False
  show ?thesis unfolding new_ViewportSizeMonitor_no_polling[OF False] using False by simp
qed

lemma new_ViewportSizeMonitor_active:
  assumes "well_formed s" and "new_ViewportSizeMonitor ow s = Inr (r, s')"
  shows "r = length (monitors s) \<and> active r s' \<and> well_formed s' \<and>
    window (monitors s' ! r) = Some (or_window ow s) \<and>
    seen_size r s' = Some (viewport s (or_window ow s)) \<and>
    notifications s' = notifications s \<and>
    length (monitors s') = Suc (length (monitors s))"
proof -
  from new_ViewportSizeMonitor_fields[of ow s] assms(2) have r: "r = length (monitors s)"
    and f: "monitors s' = monitors s @
       [\<lparr>disposed = False, subscribers = [], listenerKey = Some (next_key s),
         window = Some (or_window ow s), size' = Some (length (sizes s)),
         windowSizePollInterval =
           (if host_needs_polling s (or_window ow s) then Some (next_interval s) else None)\<rparr>]"
       "sizes s' = sizes s @ [viewport s (or_window ow s)]"
       "trace s' = trace s @
       [Listen (or_window ow s) (length (monitors s)) (next_key s),
        GetViewportSize (or_window ow s) (length (sizes s))] @
       (if host_needs_polling s (or_window ow s)
        then [SetInterval (length (monitors s)) 500 (next_interval s)] else [])"
    by auto
  from well_formed_counters[OF assms(1)] have k: "next_key s \<noteq> 0" by simp
  show ?thesis using well_formed_new_ViewportSizeMonitor[OF assms] k
    by (simp add: r f active_def truthy_def seen_size_def notifications_def)
qed

text \<open>
  C7: the constructor never fails; it registers a resize listener for the new monitor
  on its window, measures the window and stores the measurement, and dispatches no
  event. Afterwards the monitor is active and holds the measurement, and it observes:
  when the host changes the size of the window to any other \<open>v\<close> and fires the resize
  event, the monitor dispatches a resize event and holds \<open>v\<close>.
\<close>

theorem construction_measures_and_subscribes:
  assumes "well_formed s"
  shows "\<exists>s'. new_ViewportSizeMonitor ow s = Inr (length (monitors s), s') \<and>
      window (monitors s' ! length (monitors s)) = Some (or_window ow s) \<and>
      size' (monitors s' ! length (monitors s)) = Some (length (sizes s)) \<and>
      sizes s' ! length (sizes s) = viewport s (or_window ow s) \<and>
      seen_size (length (monitors s)) s' = Some (viewport s (or_window ow s)) \<and>
      GetViewportSize (or_window ow s) (length (sizes s)) \<in> set (trace s') \<and>
      notifications s' = notifications s \<and>
      listenerKey (monitors s' ! length (monitors s)) = Some (next_key s) \<and>
      (next_key s, or_window ow s, length (monitors s)) \<in> set (listeners s') \<and>
      Listen (or_window ow s) (length (monitors s)) (next_key s) \<in> set (trace s') \<and>
      active (length (monitors s)) s' \<and> well_formed s' \<and>
      (v \<noteq> viewport s (or_window ow s) \<longrightarrow>
         DispatchEvent (length (monitors s)) RESIZE (Some v)
           \<in> set (trace (fire_resize (or_window ow s) (host_resize (or_window ow s) v s'))) \<and>
         seen_size (length (monitors s))
           (fire_resize (or_window ow s) (host_resize (or_window ow s) v s')) = Some v)"
proof -
  let ?r = "length (monitors s)"
  let ?w = "or_window ow s"
  from new_ViewportSizeMonitor_fields[of ow s] obtain s' where
    n: "new_ViewportSizeMonitor ow s = Inr (?r, s')"
    and f: "monitors s' = monitors s @
       [\<lparr>disposed = False, subscribers = [], listenerKey = Some (next_key s),
         window = Some ?w, size' = Some (length (sizes s)),
         windowSizePollInterval =
           (if host_needs_polling s ?w then Some (next_interval s) else None)\<rparr>]"
       "sizes s' = sizes s @ [viewport s ?w]"
       "listeners s' = listeners s @ [(next_key s, ?w, ?r)]"
       "trace s' = trace s @ [Listen ?w ?r (next_key s), GetViewportSize ?w (length (sizes s))] @
         (if host_needs_polling s ?w then [SetInterval ?r 500 (next_interval s)] else [])"
    by blast
  from new_ViewportSizeMonitor_active[OF assms n]
  have a: "active ?r s'" "well_formed s'" "window (monitors s' ! ?r) = Some ?w"
    "seen_size ?r s' = Some (viewport s ?w)" "notifications s' = notifications s"
    by simp_all
  have obs: "DispatchEvent ?r RESIZE (Some v) \<in> set (trace (fire_resize ?w (host_resize ?w v s'))) \<and>
         seen_size ?r (fire_resize ?w (host_resize ?w v s')) = Some v"
    if v: "v \<noteq> viewport s ?w"
  proof -
    define s2 where "s2 = host_resize ?w v s'"
    have 1: "well_formed s2" using a by (simp add: s2_def well_formed_host_resize)
    have 2: "active ?r s2" "window (monitors s2 ! ?r) = Some ?w"
      "(next_key s, ?w, ?r) \<in> set (listeners s2)" "viewport s2 ?w = v"
      "seen_size ?r s2 = Some (viewport s ?w)"
      using a by (simp_all add: s2_def host_resize_fields f(3))
    from fire_resize_notifies[OF 1 2(1,2,3)] 2(4,5) v show ?thesis
      by (simp add: s2_def[symmetric])
  qed
  have "size' (monitors s' ! ?r) = Some (length (sizes s)) \<and>
      sizes s' ! length (sizes s) = viewport s ?w \<and>
      GetViewportSize ?w (length (sizes s)) \<in> set (trace s') \<and>
      listenerKey (monitors s' ! ?r) = Some (next_key s) \<and>
      (next_key s, ?w, ?r) \<in> set (listeners s') \<and>
      Listen ?w ?r (next_key s) \<in> set (trace s')"
    by (simp add: f)
  with n obs a show ?thesis by blast
qed

section \<open>Polling\<close>

lemma fold_interval_no_match:
  assumes "\<And>i' r rate. (i', r, rate) \<in> set xs \<Longrightarrow> i' \<noteq> i"
  shows "fold (\<lambda>(i', r, rate) s'. if i' = i then checkForSizeChange r s' else s') xs s = s"
  using assms
proof (induction xs arbitrary: s)
  case Nil
  then show ?case by simp
next
  case (Cons x xs)
  obtain i' r rate where x: "x = (i', r, rate)" by (cases x)
  from Cons.prems[of i' r rate] have "i' \<noteq> i" by (simp add: x)
  moreover have "fold (\<lambda>(i', r, rate) s'. if i' = i then checkForSizeChange r s' else s') xs s = s"
    by (rule Cons.IH) (use Cons.prems in auto)
  ultimately show ?case by (simp add: x)
qed

lemma fire_interval_fresh:
  assumes "intervals s = ivs @ [(i, r, rate)]"
    and "\<And>i' r' rate'. (i', r', rate') \<in> set ivs \<Longrightarrow> i' \<noteq> i"
  shows "fire_interval i s = checkForSizeChange r s"
  using fold_interval_no_match[of ivs i s, OF assms(2)]
  by (simp add: fire_interval_def assms(1))

lemma poll_silent:
  assumes "active r s" and "window (monitors s ! r) = Some w"
    and "seen_size r s = Some (viewport s w)"
    and "intervals s = ivs @ [(i, r, rate)]"
    and "\<And>i' r' rate'. (i', r', rate') \<in> set ivs \<Longrightarrow> i' \<noteq> i"
  shows "notifications (poll n i s) = notifications s \<and>
         monitors (poll n i s) = monitors s \<and>
         length (trace (poll n i s)) = length (trace s) + n"
  using assms(1-4)
proof (induction n arbitrary: s)
  case 0
  then show ?case by simp
next
  case (Suc n)
  have f: "fire_interval i s = checkForSizeChange r s"
    using Suc.prems(4) assms(5) by (rule fire_interval_fresh)
  note u = checkForSizeChange_unchanged[OF Suc.prems(1-3)]
  have "notifications (poll n i (checkForSizeChange r s)) = notifications (checkForSizeChange r s) \<and>
         monitors (poll n i (checkForSizeChange r s)) = monitors (checkForSizeChange r s) \<and>
         length (trace (poll n i (checkForSizeChange r s))) =
           length (trace (checkForSizeChange r s)) + n"
    using u Suc.prems by (intro Suc.IH) simp_all
  with u show ?case by (simp add: f)
qed

text \<open>
  C8: the constructor starts a timer exactly when the host check holds (which is what
  \<open>isPollingRequired\<close> returns for the new monitor), with the rate 500 and bound to the
  new monitor. A firing of that timer is the re-check of the resize handler, and however
  often it fires while the host reports the same size, no resize event is dispatched and
  no monitor changes, although every firing measures.
\<close>

theorem polling_timer_iff_host_check:
  assumes "well_formed s"
  shows "\<exists>s'. new_ViewportSizeMonitor ow s = Inr (length (monitors s), s') \<and>
     isPollingRequired s' (monitors s' ! length (monitors s)) =
       Inr (host_needs_polling s (or_window ow s)) \<and>
     (windowSizePollInterval (monitors s' ! length (monitors s)) \<noteq> None
        \<longleftrightarrow> host_needs_polling s (or_window ow s)) \<and>
     intervals s' = intervals s @
       (if host_needs_polling s (or_window ow s)
        then [(next_interval s, length (monitors s), 500)] else []) \<and>
     trace s' = trace s @
       [Listen (or_window ow s) (length (monitors s)) (next_key s),
        GetViewportSize (or_window ow s) (length (sizes s))] @
       (if host_needs_polling s (or_window ow s)
        then [SetInterval (length (monitors s)) 500 (next_interval s)] else []) \<and>
     (host_needs_polling s (or_window ow s) \<longrightarrow>
        windowSizePollInterval (monitors s' ! length (monitors s)) = Some (next_interval s) \<and>
        fire_interval (next_interval s) s' = handleResize (length (monitors s)) s' \<and>
        notifications (poll n (next_interval s) s') = notifications s' \<and>
        monitors (poll n (next_interval s) s') = monitors s' \<and>
        length (trace (poll n (next_interval s) s')) = length (trace s') + n)"
proof -
  let ?r = "length (monitors s)"
  let ?w = "or_window ow s"
  from new_ViewportSizeMonitor_fields[of ow s] obtain s' where
    n: "new_ViewportSizeMonitor ow s = Inr (?r, s')"
    and f: "monitors s' = monitors s @
       [\<lparr>disposed = False, subscribers = [], listenerKey = Some (next_key s),
         window = Some ?w, size' = Some (length (sizes s)),
         windowSizePollInterval =
           (if host_needs_polling s ?w then Some (next_interval s) else None)\<rparr>]"
       "intervals s' = intervals s @
         (if host_needs_polling s ?w then [(next_interval s, ?r, 500)] else [])"
       "trace s' = trace s @ [Listen ?w ?r (next_key s), GetViewportSize ?w (length (sizes s))] @
         (if host_needs_polling s ?w then [SetInterval ?r 500 (next_interval s)] else [])"
       "viewport s' = viewport s"
    by blast
  from new_ViewportSizeMonitor_active[OF assms n]
  have a: "active ?r s'" "window (monitors s' ! ?r) = Some ?w"
    "seen_size ?r s' = Some (viewport s' ?w)"
    by (simp_all add: f(4))
  have hp: "host_needs_polling s' = host_needs_polling s"
  proof -
    from n have "s' = snd (projr (new_ViewportSizeMonitor ow s))" by simp
    then show ?thesis
      by (cases "host_needs_polling s ?w")
        (simp_all add: new_ViewportSizeMonitor_polling new_ViewportSizeMonitor_no_polling
          host_needs_polling_update)
  qed
  have ip: "isPollingRequired s' (monitors s' ! ?r) = Inr (host_needs_polling s ?w)"
    using isPollingRequired_window[OF a(2), of s'] by (simp add: hp)
  have fresh: "\<And>i' r' rate'. (i', r', rate') \<in> set (intervals s) \<Longrightarrow> i' \<noteq> next_interval s"
    using well_formed_interval[OF assms] by fastforce
  have p: "windowSizePollInterval (monitors s' ! ?r) = Some (next_interval s) \<and>
        fire_interval (next_interval s) s' = handleResize ?r s' \<and>
        notifications (poll n (next_interval s) s') = notifications s' \<and>
        monitors (poll n (next_interval s) s') = monitors s' \<and>
        length (trace (poll n (next_interval s) s')) = length (trace s') + n"
    if h: "host_needs_polling s ?w"
  proof -
    from h f(2) have iv: "intervals s' = intervals s @ [(next_interval s, ?r, 500)]" by simp
    from fire_interval_fresh[OF iv fresh] poll_silent[OF a iv fresh, where n = n] h
    show ?thesis by (simp add: handleResize_def f(1))
  qed
  have "(windowSizePollInterval (monitors s' ! ?r) \<noteq> None) = host_needs_polling s ?w"
    by (simp add: f(1))
  with n ip f(2,3) p show ?thesis by blast
qed

section \<open>The registry\<close>

lemma well_formed_register:
  assumes "well_formed s" and "r < length (monitors s)"
    and "\<And>u. windowInstanceMap s u \<noteq> Some r"
  shows "well_formed (s\<lparr>windowInstanceMap := (windowInstanceMap s)(w \<mapsto> r)\<rparr>)"
proof (rule well_formedI)
  fix u u' r'
  assume "windowInstanceMap (s\<lparr>windowInstanceMap := (windowInstanceMap s)(w \<mapsto> r)\<rparr>) u = Some r'"
    "windowInstanceMap (s\<lparr>windowInstanceMap := (windowInstanceMap s)(w \<mapsto> r)\<rparr>) u' = Some r'"
  then show "u = u'"
    using well_formed_registry(2)[OF assms(1), of u r' u'] assms(3)
    by (auto split: if_splits)
next
  fix u r'
  assume "windowInstanceMap (s\<lparr>windowInstanceMap := (windowInstanceMap s)(w \<mapsto> r)\<rparr>) u = Some r'"
  then show "r' < length (monitors (s\<lparr>windowInstanceMap := (windowInstanceMap s)(w \<mapsto> r)\<rparr>))"
    using well_formed_registry(1)[OF assms(1), of u r'] assms(2) by (auto split: if_splits)
qed (use assms(1) in \<open>auto dest: well_formed_counters well_formed_monitor well_formed_listener well_formed_interval\<close>)

lemma well_formed_unregister:
  assumes "well_formed s"
  shows "well_formed (s\<lparr>windowInstanceMap := (windowInstanceMap s)(w := None)\<rparr>)"
proof (rule well_formedI)
  fix u u' r'
  assume "windowInstanceMap (s\<lparr>windowInstanceMap := (windowInstanceMap s)(w := None)\<rparr>) u = Some r'"
    "windowInstanceMap (s\<lparr>windowInstanceMap := (windowInstanceMap s)(w := None)\<rparr>) u' = Some r'"
  then show "u = u'"
    using well_formed_registry(2)[OF assms(1), of u r' u'] by (auto split: if_splits)
next
  fix u r'
  assume "windowInstanceMap (s\<lparr>windowInstanceMap := (windowInstanceMap s)(w := None)\<rparr>) u = Some r'"
  then show "r' < length (monitors (s\<lparr>windowInstanceMap := (windowInstanceMap s)(w := None)\<rparr>))"
    using well_formed_registry(1)[OF assms(1), of u r'] by (auto split: if_splits)
qed (use assms(1) in \<open>auto dest: well_formed_counters well_formed_monitor well_formed_listener well_formed_interval\<close>)

lemma getInstanceForWindow_result:
  assumes "well_formed s"
  shows "\<exists>r s1. getInstanceForWindow ow s = Inr (r, s1) \<and>
     windowInstanceMap s1 = (windowInstanceMap s)(or_window ow s \<mapsto> r) \<and>
     well_formed s1 \<and> ambient s1 = ambient s \<and> r < length (monitors s1) \<and>
     (case windowInstanceMap s (or_window ow s) of
        Some r0 \<Rightarrow> r = r0 \<and> s1 = s
      | None \<Rightarrow> r = length (monitors s) \<and> active r s1 \<and>
          length (monitors s1) = Suc (length (monitors s)) \<and>
          window (monitors s1 ! r) = Some (or_window ow s) \<and>
          seen_size r s1 = Some (viewport s (or_window ow s)))"
proof (cases "windowInstanceMap s (or_window ow s)")
  case (Some r0)
  with getInstanceForWindow_registered[OF Some] assms well_formed_registry(1)[OF assms Some]
  show ?thesis by (simp add: map_upd_triv)
next
  case None
  let ?w = "or_window ow s"
  let ?r = "length (monitors s)"
  from new_ViewportSizeMonitor_fields[of "Some ?w" s] obtain s' where
    n: "new_ViewportSizeMonitor (Some ?w) s = Inr (?r, s')"
    and f: "windowInstanceMap s' = windowInstanceMap s" "ambient s' = ambient s"
    by blast
  note a = new_ViewportSizeMonitor_active[OF assms n, unfolded or_window_Some]
  have fresh: "\<And>u. windowInstanceMap s' u \<noteq> Some ?r"
    using well_formed_registry(1)[OF assms] by (fastforce simp add: f)
  from a have len: "?r < length (monitors s')" by simp
  from a have wf': "well_formed s'" by simp
  have wf1: "well_formed (s'\<lparr>windowInstanceMap := (windowInstanceMap s')(?w \<mapsto> ?r)\<rparr>)"
    using wf' len fresh by (rule well_formed_register)
  have act: "active ?r (s'\<lparr>windowInstanceMap := (windowInstanceMap s')(?w \<mapsto> ?r)\<rparr>)"
    "seen_size ?r (s'\<lparr>windowInstanceMap := (windowInstanceMap s')(?w \<mapsto> ?r)\<rparr>)
       = Some (viewport s ?w)"
    using a by (simp_all add: active_def seen_size_def cong: option.case_cong)
  from getInstanceForWindow_new[OF None n] wf1 act a None show ?thesis
    by (simp add: f)
qed

text \<open>
  C3: \<open>getInstanceForWindow\<close> never fails; a second call for the same window returns
  the same monitor (the same address) and changes nothing. The registry is a map from
  windows to monitors, and the call writes the one entry of its window. A call for
  another window returns another monitor, after which each window still gets its own
  monitor back.
\<close>

theorem getInstanceForWindow_same_instance:
  assumes "well_formed s"
  shows "\<exists>r s1. getInstanceForWindow ow s = Inr (r, s1) \<and>
     getInstanceForWindow ow s1 = Inr (r, s1) \<and>
     windowInstanceMap s1 = (windowInstanceMap s)(or_window ow s \<mapsto> r) \<and>
     well_formed s1 \<and>
     (or_window ow' s \<noteq> or_window ow s \<longrightarrow>
        (\<exists>r' s2. getInstanceForWindow ow' s1 = Inr (r', s2) \<and> r' \<noteq> r \<and>
           windowInstanceMap s2 (or_window ow s) = Some r \<and>
           windowInstanceMap s2 (or_window ow' s) = Some r' \<and>
           getInstanceForWindow ow s2 = Inr (r, s2) \<and>
           getInstanceForWindow ow' s2 = Inr (r', s2)))"
proof -
  from getInstanceForWindow_result[OF assms, of ow] obtain r s1 where
    g: "getInstanceForWindow ow s = Inr (r, s1)"
    and m: "windowInstanceMap s1 = (windowInstanceMap s)(or_window ow s \<mapsto> r)"
    and wf1: "well_formed s1" and amb: "ambient s1 = ambient s" and len: "r < length (monitors s1)"
    by blast
  have ow1: "or_window x s1 = or_window x s" for x
    by (cases x) (simp_all add: or_window_def amb)
  have again: "getInstanceForWindow ow s1 = Inr (r, s1)"
    by (rule getInstanceForWindow_registered) (simp add: ow1 m)
  have other: "\<exists>r' s2. getInstanceForWindow ow' s1 = Inr (r', s2) \<and> r' \<noteq> r \<and>
           windowInstanceMap s2 (or_window ow s) = Some r \<and>
           windowInstanceMap s2 (or_window ow' s) = Some r' \<and>
           getInstanceForWindow ow s2 = Inr (r, s2) \<and>
           getInstanceForWindow ow' s2 = Inr (r', s2)"
    if d: "or_window ow' s \<noteq> or_window ow s"
  proof -
    from getInstanceForWindow_result[OF wf1, of ow'] obtain r' s2 where
      g2: "getInstanceForWindow ow' s1 = Inr (r', s2)"
      and m2: "windowInstanceMap s2 = (windowInstanceMap s1)(or_window ow' s \<mapsto> r')"
      and amb2: "ambient s2 = ambient s1"
      and c: "case windowInstanceMap s1 (or_window ow' s) of
        Some r0 \<Rightarrow> r' = r0 \<and> s2 = s1
      | None \<Rightarrow> r' = length (monitors s1) \<and> active r' s2 \<and>
          length (monitors s2) = Suc (length (monitors s1)) \<and>
          window (monitors s2 ! r') = Some (or_window ow' s1) \<and>
          seen_size r' s2 = Some (viewport s1 (or_window ow' s1))"
      unfolding ow1 by blast
    have ow2: "or_window x s2 = or_window x s" for x
      by (cases x) (simp_all add: or_window_def amb amb2)
    have ne: "r' \<noteq> r"
    proof (cases "windowInstanceMap s1 (or_window ow' s)")
      case None
      with c len show ?thesis by simp
    next
      case (Some r0)
      with c have "windowInstanceMap s1 (or_window ow' s) = Some r'" by simp
      moreover have "windowInstanceMap s1 (or_window ow s) = Some r" by (simp add: m)
      ultimately show ?thesis using well_formed_registry(2)[OF wf1] d by blast
    qed
    have r1: "windowInstanceMap s2 (or_window ow s) = Some r"
      using d by (simp add: m2 m)
    have r2: "windowInstanceMap s2 (or_window ow' s) = Some r'"
      by (simp add: m2)
    have "getInstanceForWindow ow s2 = Inr (r, s2)"
      by (rule getInstanceForWindow_registered) (simp add: ow2 r1)
    moreover have "getInstanceForWindow ow' s2 = Inr (r', s2)"
      by (rule getInstanceForWindow_registered) (simp add: ow2 r2)
    ultimately show ?thesis using g2 ne r1 r2 by blast
  qed
  from g again m wf1 other show ?thesis by blast
qed

lemma well_formed_dispose:
  assumes "well_formed s" and "r < length (monitors s)"
  shows "well_formed (dispose r s) \<and> length (monitors (dispose r s)) = length (monitors s) \<and>
    windowInstanceMap (dispose r s) = windowInstanceMap s \<and>
    ambient (dispose r s) = ambient s \<and>
    disposed (monitors (dispose r s) ! r)"
proof (cases "disposed (monitors s ! r)")
  case True
  with assms show ?thesis by (simp add: dispose_eq)
next
  case False
  define s0 where "s0 = update r (\<lambda>m. m\<lparr>disposed := True\<rparr>) s"
  have wf0: "well_formed s0" and len0: "r < length (monitors s0)"
    and m0: "monitors s0 ! r = (monitors s ! r)\<lparr>disposed := True\<rparr>"
    and f0: "length (monitors s0) = length (monitors s)"
      "windowInstanceMap s0 = windowInstanceMap s" "ambient s0 = ambient s"
    using assms by (simp_all add: s0_def well_formed_update_disposed) (simp_all add: update_def)
  have d: "dispose r s = disposeInternal r s0"
    using False by (simp add: dispose_eq s0_def)
  note h = well_formed_handles[OF wf0 len0]
  have "windowInstanceMap (disposeInternal r s0) = windowInstanceMap s0"
    "ambient (disposeInternal r s0) = ambient s0"
    using h len0 by (simp_all add: disposeInternal_eq)
  with well_formed_disposeInternal[OF wf0 len0] length_monitors_disposeInternal[OF wf0 len0]
    disposeInternal_fields[OF wf0 len0] f0 m0
  show ?thesis by (simp add: d)
qed

lemma dispose_active:
  assumes "well_formed s" and "r < length (monitors s)" and "\<not> disposed (monitors s ! r)"
  shows "listenerKey (monitors (dispose r s) ! r) = None \<and>
         windowSizePollInterval (monitors (dispose r s) ! r) = None \<and>
         window (monitors (dispose r s) ! r) = None \<and>
         size' (monitors (dispose r s) ! r) = None \<and>
         (k, w, r) \<notin> set (listeners (dispose r s)) \<and>
         (i, r, rate) \<notin> set (intervals (dispose r s))"
proof -
  define s0 where "s0 = update r (\<lambda>m. m\<lparr>disposed := True\<rparr>) s"
  have wf0: "well_formed s0" and len0: "r < length (monitors s0)"
    using assms by (simp_all add: s0_def well_formed_update_disposed) (simp_all add: update_def)
  have d: "dispose r s = disposeInternal r s0"
    using assms(3) by (simp add: dispose_eq s0_def)
  from disposeInternal_fields[OF wf0 len0] disposeInternal_unhooks[OF wf0 len0, of k w i rate]
  show ?thesis by (simp add: d)
qed

lemma removeInstanceForWindow_result:
  assumes "well_formed s" and s1_def: "s1 = removeInstanceForWindow ow s"
  shows "windowInstanceMap s1 (or_window ow s) = None \<and> well_formed s1 \<and> ambient s1 = ambient s \<and>
     length (monitors s1) = length (monitors s) \<and>
     (case windowInstanceMap s (or_window ow s) of
        None \<Rightarrow> s1 = s
      | Some r \<Rightarrow>
          s1 = (dispose r s)\<lparr>windowInstanceMap := (windowInstanceMap s)((or_window ow s) := None)\<rparr> \<and>
          disposed (monitors s1 ! r) \<and>
          (if disposed (monitors s ! r)
           then monitors s1 = monitors s
           else listenerKey (monitors s1 ! r) = None \<and>
                windowSizePollInterval (monitors s1 ! r) = None \<and>
                window (monitors s1 ! r) = None \<and>
                size' (monitors s1 ! r) = None \<and>
                (k, w, r) \<notin> set (listeners s1) \<and>
                (i, r, rate) \<notin> set (intervals s1)) \<and>
          r < length (monitors s1))"
proof -
  let ?w = "or_window ow s"
  have s1: "s1 = (goog_dispose (windowInstanceMap s ?w) s)
      \<lparr>windowInstanceMap := (windowInstanceMap (goog_dispose (windowInstanceMap s ?w) s))(?w := None)\<rparr>"
    by (simp add: s1_def removeInstanceForWindow_def goog_getUid_def Let_def)
  show ?thesis
  proof (cases "windowInstanceMap s ?w")
    case None
    then have "(windowInstanceMap s)(?w := None) = windowInstanceMap s" by (simp add: fun_eq_iff)
    with None assms(1) show ?thesis by (simp add: s1 goog_dispose_def)
  next
    case (Some r)
    from well_formed_registry(1)[OF assms(1) Some] have len: "r < length (monitors s)" .
    note d = well_formed_dispose[OF assms(1) len]
    have e: "s1 = (dispose r s)\<lparr>windowInstanceMap := (windowInstanceMap s)(?w := None)\<rparr>"
      using d by (simp add: s1 goog_dispose_def Some)
    have wf1: "well_formed s1"
      using well_formed_unregister[of "dispose r s" ?w] d by (simp add: e)
    have "monitors s1 = monitors s" if "disposed (monitors s ! r)"
      using that by (simp add: e dispose_eq)
    moreover have "listenerKey (monitors s1 ! r) = None \<and>
                windowSizePollInterval (monitors s1 ! r) = None \<and>
                window (monitors s1 ! r) = None \<and>
                size' (monitors s1 ! r) = None \<and>
                (k, w, r) \<notin> set (listeners s1) \<and>
                (i, r, rate) \<notin> set (intervals s1)" if "\<not> disposed (monitors s ! r)"
      using dispose_active[OF assms(1) len that, of k w i rate] by (simp add: e)
    ultimately show ?thesis using Some d wf1 len e by (simp add: e)
  qed
qed

text \<open>
  C5: \<open>removeInstanceForWindow\<close> changes nothing when no monitor is registered for
  the window. Otherwise it disposes the registered monitor (releasing its listener,
  timer, window and size when it was not disposed before) and deletes the entry. A
  \<open>getInstanceForWindow\<close> for the window then constructs a new monitor at a new
  address, registers it, and returns it active.
\<close>

theorem removeInstanceForWindow_disposes_and_unregisters:
  assumes "well_formed s"
  shows "windowInstanceMap (removeInstanceForWindow ow s) (or_window ow s) = None \<and>
     well_formed (removeInstanceForWindow ow s) \<and>
     (case windowInstanceMap s (or_window ow s) of
        None \<Rightarrow> removeInstanceForWindow ow s = s
      | Some r \<Rightarrow>
          removeInstanceForWindow ow s =
            (dispose r s)\<lparr>windowInstanceMap := (windowInstanceMap s)(or_window ow s := None)\<rparr> \<and>
          disposed (monitors (removeInstanceForWindow ow s) ! r) \<and>
          (if disposed (monitors s ! r)
           then monitors (removeInstanceForWindow ow s) = monitors s
           else listenerKey (monitors (removeInstanceForWindow ow s) ! r) = None \<and>
                windowSizePollInterval (monitors (removeInstanceForWindow ow s) ! r) = None \<and>
                window (monitors (removeInstanceForWindow ow s) ! r) = None \<and>
                size' (monitors (removeInstanceForWindow ow s) ! r) = None \<and>
                (k, w, r) \<notin> set (listeners (removeInstanceForWindow ow s)) \<and>
                (i, r, rate) \<notin> set (intervals (removeInstanceForWindow ow s))) \<and>
          r < length (monitors (removeInstanceForWindow ow s))) \<and>
     (\<exists>s2. getInstanceForWindow ow (removeInstanceForWindow ow s) =
              Inr (length (monitors (removeInstanceForWindow ow s)), s2) \<and>
        windowInstanceMap s (or_window ow s)
          \<noteq> Some (length (monitors (removeInstanceForWindow ow s))) \<and>
        windowInstanceMap s2 (or_window ow s)
          = Some (length (monitors (removeInstanceForWindow ow s))) \<and>
        \<not> disposed (monitors s2 ! length (monitors (removeInstanceForWindow ow s))) \<and>
        active (length (monitors (removeInstanceForWindow ow s))) s2)"
proof -
  let ?w = "or_window ow s"
  define s1 where "s1 = removeInstanceForWindow ow s"
  note main = removeInstanceForWindow_result[OF assms s1_def, of k w i rate]
  from main have wf1: "well_formed s1" and reg: "windowInstanceMap s1 ?w = None"
    and amb: "ambient s1 = ambient s" and len1: "length (monitors s1) = length (monitors s)"
    and cs: "case windowInstanceMap s ?w of
        None \<Rightarrow> s1 = s
      | Some r \<Rightarrow>
          s1 = (dispose r s)\<lparr>windowInstanceMap := (windowInstanceMap s)(?w := None)\<rparr> \<and>
          disposed (monitors s1 ! r) \<and>
          (if disposed (monitors s ! r)
           then monitors s1 = monitors s
           else listenerKey (monitors s1 ! r) = None \<and>
                windowSizePollInterval (monitors s1 ! r) = None \<and>
                window (monitors s1 ! r) = None \<and>
                size' (monitors s1 ! r) = None \<and>
                (k, w, r) \<notin> set (listeners s1) \<and>
                (i, r, rate) \<notin> set (intervals s1)) \<and>
          r < length (monitors s1)"
    by blast+
  have ow1: "or_window ow s1 = ?w"
    by (cases ow) (simp_all add: or_window_def amb)
  from getInstanceForWindow_result[OF wf1, of ow] reg obtain s2 where
    g: "getInstanceForWindow ow s1 = Inr (length (monitors s1), s2)"
    and m: "windowInstanceMap s2 = (windowInstanceMap s1)(?w \<mapsto> length (monitors s1))"
    and a: "active (length (monitors s1)) s2"
    unfolding ow1 by auto
  have n1: "windowInstanceMap s ?w \<noteq> Some (length (monitors s1))"
    using well_formed_registry(1)[OF assms, of ?w "length (monitors s)"] by (auto simp add: len1)
  have n2: "\<not> disposed (monitors s2 ! length (monitors s1))"
    using a by (simp add: active_def)
  have n3: "windowInstanceMap s2 ?w = Some (length (monitors s1))" by (simp add: m)
  show ?thesis unfolding s1_def[symmetric]
    by (intro conjI exI[of _ s2]) (fact reg wf1 cs g n1 n2 n3 a)+
qed

section \<open>The invariant holds in every reachable state\<close>

lemma well_formed_set_Size: "well_formed s \<Longrightarrow> well_formed (set_Size a wd ht s)"
  by (simp add: well_formed_def set_Size_def)

lemma fold_checks_well_formed:
  assumes "well_formed s" and "\<And>x. x \<in> set xs \<Longrightarrow> g x < length (monitors s)"
  shows "well_formed (fold (\<lambda>x s'. if c x then checkForSizeChange (g x) s' else s') xs s) \<and>
    length (monitors (fold (\<lambda>x s'. if c x then checkForSizeChange (g x) s' else s') xs s))
      = length (monitors s)"
  using assms
proof (induction xs arbitrary: s)
  case Nil
  then show ?case by simp
next
  case (Cons x xs)
  define s1 where "s1 = (if c x then checkForSizeChange (g x) s else s)"
  have gx: "g x < length (monitors s)" using Cons.prems(2)[of x] by simp
  have 1: "well_formed s1" and 2: "length (monitors s1) = length (monitors s)"
    using Cons.prems(1) gx well_formed_checkForSizeChange[OF Cons.prems(1) gx]
      checkForSizeChange_frame[OF Cons.prems(1) gx]
    by (simp_all add: s1_def)
  have 3: "\<And>y. y \<in> set xs \<Longrightarrow> g y < length (monitors s1)"
    using Cons.prems(2) by (simp add: 2)
  from Cons.IH[OF 1 3] show ?case by (simp add: s1_def[symmetric] 2)
qed

lemma well_formed_fire_resize: "well_formed s \<Longrightarrow> well_formed (fire_resize w s)"
proof -
  assume wf: "well_formed s"
  have e: "(\<lambda>(k, w', r) s'. if w' = w then handleResize r s' else s') =
    (\<lambda>x s'. if fst (snd x) = w then checkForSizeChange (snd (snd x)) s' else s')"
    by (simp add: fun_eq_iff handleResize_def)
  have "\<And>x. x \<in> set (listeners s) \<Longrightarrow> snd (snd x) < length (monitors s)"
    using well_formed_listener[OF wf] by (metis prod.collapse)
  from fold_checks_well_formed[OF wf this, where xs = "listeners s" and c = "\<lambda>x. fst (snd x) = w"]
  show ?thesis by (simp add: fire_resize_def e)
qed

lemma well_formed_fire_interval: "well_formed s \<Longrightarrow> well_formed (fire_interval i s)"
proof -
  assume wf: "well_formed s"
  have e: "(\<lambda>(i', r, rate) s'. if i' = i then checkForSizeChange r s' else s') =
    (\<lambda>x s'. if fst x = i then checkForSizeChange (fst (snd x)) s' else s')"
    by (simp add: fun_eq_iff)
  have "\<And>x. x \<in> set (intervals s) \<Longrightarrow> fst (snd x) < length (monitors s)"
    using well_formed_interval[OF wf] by (metis prod.collapse)
  from fold_checks_well_formed[OF wf this, where xs = "intervals s" and c = "\<lambda>x. fst x = i"]
  show ?thesis by (simp add: fire_interval_def e)
qed

lemma reachable_well_formed: "reachable s \<Longrightarrow> well_formed s"
proof (induction rule: reachable.induct)
  case (loaded amb webkit windows opera nest vp)
  show ?case by (rule well_formed_initial)
next
  case (resized s w v)
  then show ?case by (simp add: well_formed_host_resize)
next
  case (constructed s opt_window r s')
  then show ?case by (blast intro: well_formed_new_ViewportSizeMonitor)
next
  case (got s opt_window r s')
  from getInstanceForWindow_result[OF got.IH, of opt_window] got.hyps(2)
  show ?case by auto
next
  case (removed s opt_window)
  from removeInstanceForWindow_result[OF removed.IH refl] show ?case by simp
next
  case (read s r)
  then show ?case by (simp add: well_formed_getSize)
next
  case (assigned s a wd ht)
  then show ?case by (simp add: well_formed_set_Size)
next
  case (disposed s r)
  then show ?case by (simp add: well_formed_dispose)
next
  case (checked s r)
  then show ?case by (simp add: well_formed_checkForSizeChange)
next
  case (resize_fired s w)
  then show ?case by (simp add: well_formed_fire_resize)
next
  case (timer_fired s i)
  then show ?case by (simp add: well_formed_fire_interval)
qed

section \<open>Reading the size in a reachable state\<close>

lemma measuredI:
  "(\<And>m. m \<in> set (monitors s) \<Longrightarrow> \<not> disposed m \<Longrightarrow> size' m \<noteq> None) \<Longrightarrow> measured s"
  by (simp add: measured_def)

lemma measuredD:
  "measured s \<Longrightarrow> m \<in> set (monitors s) \<Longrightarrow> \<not> disposed m \<Longrightarrow> size' m \<noteq> None"
  by (simp add: measured_def)

lemma measured_monitors: "monitors s' = monitors s \<Longrightarrow> measured s \<Longrightarrow> measured s'"
  by (simp add: measured_def)

lemma measured_list_update:
  assumes "measured s" and "monitors s' = (monitors s)[r := m]"
    and "\<not> disposed m \<Longrightarrow> size' m \<noteq> None"
  shows "measured s'"
proof (rule measuredI)
  fix x assume "x \<in> set (monitors s')" and nd: "\<not> disposed x"
  then have "x = m \<or> x \<in> set (monitors s)"
    unfolding assms(2) by (intro in_set_list_update)
  with nd assms(1,3) show "size' x \<noteq> None" by (auto dest: measuredD)
qed

lemma measured_new_ViewportSizeMonitor:
  assumes "measured s" and "new_ViewportSizeMonitor ow s = Inr (r, s')"
  shows "measured s'"
proof -
  from new_ViewportSizeMonitor_fields[of ow s] assms(2)
  have "monitors s' = monitors s @
       [\<lparr>disposed = False, subscribers = [], listenerKey = Some (next_key s),
         window = Some (or_window ow s), size' = Some (length (sizes s)),
         windowSizePollInterval =
           (if host_needs_polling s (or_window ow s) then Some (next_interval s) else None)\<rparr>]"
    by auto
  with assms(1) show ?thesis by (auto simp add: measured_def)
qed

lemma measured_getInstanceForWindow:
  assumes "measured s" and "getInstanceForWindow ow s = Inr (r, s')"
  shows "measured s'"
proof (cases "windowInstanceMap s (or_window ow s)")
  case (Some r0)
  from getInstanceForWindow_registered[OF Some] assms show ?thesis by simp
next
  case None
  from new_ViewportSizeMonitor_total[of "Some (or_window ow s)" s] obtain s1 where
    n: "new_ViewportSizeMonitor (Some (or_window ow s)) s = Inr (length (monitors s), s1)"
    by blast
  from getInstanceForWindow_new[OF None n] assms(2)
  have "monitors s' = monitors s1" by auto
  with measured_new_ViewportSizeMonitor[OF assms(1) n] show ?thesis
    by (simp add: measured_def)
qed

lemma measured_dispose:
  assumes "well_formed s" and "r < length (monitors s)" and "measured s"
  shows "measured (dispose r s)"
proof (cases "disposed (monitors s ! r)")
  case True
  with assms(3) show ?thesis by (simp add: dispose_eq)
next
  case False
  define s0 where "s0 = update r (\<lambda>m. m\<lparr>disposed := True\<rparr>) s"
  have wf0: "well_formed s0" and len0: "r < length (monitors s0)"
    and ms0: "monitors s0 = (monitors s)[r := (monitors s ! r)\<lparr>disposed := True\<rparr>]"
    using assms(1,2) by (simp_all add: s0_def well_formed_update_disposed) (simp_all add: update_def)
  have d: "dispose r s = disposeInternal r s0"
    using False by (simp add: dispose_eq s0_def)
  note h = well_formed_handles[OF wf0 len0]
  have "monitors (dispose r s) = (monitors s)[r := (monitors s ! r)\<lparr>disposed := True,
      subscribers := [], listenerKey := None, windowSizePollInterval := None, window := None,
      size' := None\<rparr>]"
    using h len0 assms(2) by (simp add: d disposeInternal_eq ms0)
  with assms(3) show ?thesis by (rule measured_list_update) simp
qed

lemma measured_checkForSizeChange:
  assumes "well_formed s" and "r < length (monitors s)" and "measured s"
  shows "measured (checkForSizeChange r s)"
proof (cases "\<exists>b. size' (monitors s ! r) = Some b \<and>
    sizes s ! b = viewport s (or_window (window (monitors s ! r)) s)")
  case True
  then obtain b where b: "size' (monitors s ! r) = Some b"
    "sizes s ! b = viewport s (or_window (window (monitors s ! r)) s)" by blast
  from well_formed_size_valid[OF assms(1,2) b(1)] have "b < length (sizes s)" .
  from checkForSizeChange_same[OF assms(2) b(1) this b(2)] assms(3)
  show ?thesis by (simp add: measured_def)
next
  case False
  with assms(1,2) have "case size' (monitors s ! r) of None \<Rightarrow> True
         | Some b \<Rightarrow> b < length (sizes s) \<and>
             sizes s ! b \<noteq> viewport s (or_window (window (monitors s ! r)) s)"
    by (auto split: option.splits dest: well_formed_size_valid)
  from checkForSizeChange_differs[OF assms(2) this]
  have "monitors (checkForSizeChange r s) =
    (monitors s)[r := (monitors s ! r)\<lparr>size' := Some (length (sizes s))\<rparr>]"
    by simp
  with assms(3) show ?thesis by (rule measured_list_update) simp
qed

lemma fold_checks_measured:
  assumes "well_formed s" and "measured s"
    and "\<And>x. x \<in> set xs \<Longrightarrow> g x < length (monitors s)"
  shows "measured (fold (\<lambda>x s'. if c x then checkForSizeChange (g x) s' else s') xs s)"
  using assms
proof (induction xs arbitrary: s)
  case Nil
  then show ?case by simp
next
  case (Cons x xs)
  define s1 where "s1 = (if c x then checkForSizeChange (g x) s else s)"
  have gx: "g x < length (monitors s)" using Cons.prems(3)[of x] by simp
  have 1: "well_formed s1" and 2: "length (monitors s1) = length (monitors s)"
    and 3: "measured s1"
    using Cons.prems(1,2) gx well_formed_checkForSizeChange[OF Cons.prems(1) gx]
      checkForSizeChange_frame[OF Cons.prems(1) gx]
      measured_checkForSizeChange[OF Cons.prems(1) gx Cons.prems(2)]
    by (simp_all add: s1_def)
  have 4: "\<And>y. y \<in> set xs \<Longrightarrow> g y < length (monitors s1)"
    using Cons.prems(3) by (simp add: 2)
  from Cons.IH[OF 1 3 4] show ?case by (simp add: s1_def[symmetric])
qed

lemma measured_fire_resize:
  assumes "well_formed s" and "measured s"
  shows "measured (fire_resize w s)"
proof -
  have e: "(\<lambda>(k, w', r) s'. if w' = w then handleResize r s' else s') =
    (\<lambda>x s'. if fst (snd x) = w then checkForSizeChange (snd (snd x)) s' else s')"
    by (simp add: fun_eq_iff handleResize_def)
  have "\<And>x. x \<in> set (listeners s) \<Longrightarrow> snd (snd x) < length (monitors s)"
    using well_formed_listener[OF assms(1)] by (metis prod.collapse)
  from fold_checks_measured[OF assms this, where xs = "listeners s" and c = "\<lambda>x. fst (snd x) = w"]
  show ?thesis by (simp add: fire_resize_def e)
qed

lemma measured_fire_interval:
  assumes "well_formed s" and "measured s"
  shows "measured (fire_interval i s)"
proof -
  have e: "(\<lambda>(i', r, rate) s'. if i' = i then checkForSizeChange r s' else s') =
    (\<lambda>x s'. if fst x = i then checkForSizeChange (fst (snd x)) s' else s')"
    by (simp add: fun_eq_iff)
  have "\<And>x. x \<in> set (intervals s) \<Longrightarrow> fst (snd x) < length (monitors s)"
    using well_formed_interval[OF assms(1)] by (metis prod.collapse)
  from fold_checks_measured[OF assms this, where xs = "intervals s" and c = "\<lambda>x. fst x = i"]
  show ?thesis by (simp add: fire_interval_def e)
qed

lemma measured_removeInstanceForWindow:
  assumes "well_formed s" and "measured s"
  shows "measured (removeInstanceForWindow ow s)"
proof (cases "windowInstanceMap s (or_window ow s)")
  case None
  with removeInstanceForWindow_result[OF assms(1) refl, of ow] assms(2) show ?thesis by simp
next
  case (Some r)
  from well_formed_registry(1)[OF assms(1) Some] have len: "r < length (monitors s)" .
  note t = removeInstanceForWindow_result[OF assms(1) refl, of ow, unfolded Some option.case]
  from t have "removeInstanceForWindow ow s =
      (dispose r s)\<lparr>windowInstanceMap := (windowInstanceMap s)(or_window ow s := None)\<rparr>"
    by blast
  then have "monitors (removeInstanceForWindow ow s) = monitors (dispose r s)"
    by simp
  then show ?thesis using measured_dispose[OF assms(1) len assms(2)] by (rule measured_monitors)
qed

lemma reachable_measured: "reachable s \<Longrightarrow> measured s"
proof (induction rule: reachable.induct)
  case (loaded amb webkit windows opera nest vp)
  show ?case by (simp add: measured_def initial_def)
next
  case (resized s w v)
  then show ?case by (simp add: measured_def host_resize_def)
next
  case (constructed s opt_window r s')
  then show ?case by (blast intro: measured_new_ViewportSizeMonitor)
next
  case (got s opt_window r s')
  then show ?case by (blast intro: measured_getInstanceForWindow)
next
  case (removed s opt_window)
  then show ?case by (simp add: measured_removeInstanceForWindow reachable_well_formed)
next
  case (read s r)
  then show ?case
    by (cases "size' (monitors s ! r)") (simp_all add: measured_def getSize_Some getSize_None)
next
  case (assigned s a wd ht)
  then show ?case by (simp add: measured_def set_Size_def)
next
  case (disposed s r)
  then show ?case by (simp add: measured_dispose reachable_well_formed)
next
  case (checked s r)
  then show ?case by (simp add: measured_checkForSizeChange reachable_well_formed)
next
  case (resize_fired s w)
  then show ?case by (simp add: measured_fire_resize reachable_well_formed)
next
  case (timer_fired s i)
  then show ?case by (simp add: measured_fire_interval reachable_well_formed)
qed

text \<open>
  C6, as the code has it: \<open>getSize\<close> changes no monitor, takes no measurement and
  touches no Size object that exists; it returns a new Size object with the stored
  width and height, so that an assignment to the returned object leaves the monitor's
  size as it was. It returns \<^verbatim>\<open>null\<close> exactly when the field \<^verbatim>\<open>size\<close> is \<^verbatim>\<open>null\<close>. In
  every reachable state that is the case only for a monitor that has been disposed: a
  monitor that has not been disposed has measured, and \<open>getSize\<close> returns a copy. The
  disposal of a monitor clears the size, and \<open>getSize\<close> returns \<^verbatim>\<open>null\<close> after it.
\<close>

theorem getSize_returns_copy:
  assumes "reachable s" and "r < length (monitors s)"
  shows "monitors (snd (getSize r s)) = monitors s \<and>
     trace (snd (getSize r s)) = trace s \<and>
     windowInstanceMap (snd (getSize r s)) = windowInstanceMap s \<and>
     listeners (snd (getSize r s)) = listeners s \<and>
     intervals (snd (getSize r s)) = intervals s \<and>
     take (length (sizes s)) (sizes (snd (getSize r s))) = sizes s \<and>
     (fst (getSize r s) = None \<longleftrightarrow> size' (monitors s ! r) = None) \<and>
     (case fst (getSize r s) of
        None \<Rightarrow> snd (getSize r s) = s
      | Some c \<Rightarrow>
          c = length (sizes s) \<and> size' (monitors s ! r) \<noteq> Some c \<and>
          Some (sizes (snd (getSize r s)) ! c) = seen_size r s \<and>
          seen_size r (set_Size c wd ht (snd (getSize r s))) = seen_size r s \<and>
          monitors (set_Size c wd ht (snd (getSize r s))) = monitors s) \<and>
     fst (getSize r (disposeInternal r s)) = None \<and>
     (fst (getSize r s) = None \<longrightarrow> disposed (monitors s ! r)) \<and>
     (\<not> disposed (monitors s ! r) \<longrightarrow>
        fst (getSize r s) = Some (length (sizes s)) \<and>
        fst (getSize r (dispose r s)) = None)"
proof -
  from assms(1) have wf: "well_formed s" and ms: "measured s"
    by (simp_all add: reachable_well_formed reachable_measured)
  note frame = getSize_copy_frame[OF wf assms(2), of wd ht]
  have live: "size' (monitors s ! r) \<noteq> None" if "\<not> disposed (monitors s ! r)"
    using measuredD[OF ms _ that] assms(2) by simp
  have absent: "disposed (monitors s ! r)" if "fst (getSize r s) = None"
  proof (rule ccontr)
    assume "\<not> disposed (monitors s ! r)"
    from live[OF this] that show False
      by (cases "size' (monitors s ! r)") (simp_all add: getSize_Some getSize_None)
  qed
  have after: "fst (getSize r s) = Some (length (sizes s)) \<and>
        fst (getSize r (dispose r s)) = None" if nd: "\<not> disposed (monitors s ! r)"
  proof -
    from live[OF nd] obtain b where "size' (monitors s ! r) = Some b" by blast
    then have "fst (getSize r s) = Some (length (sizes s))" by (simp add: getSize_Some)
    moreover from dispose_active[OF wf assms(2) nd]
    have "size' (monitors (dispose r s) ! r) = None" by simp
    then have "fst (getSize r (dispose r s)) = None" by (simp add: getSize_None)
    ultimately show ?thesis by simp
  qed
  from frame absent after show ?thesis by blast
qed

lemma reachable_monitored_desktop: "reachable monitored_desktop"
proof -
  have "reachable desktop" unfolding desktop_def by (rule reachable.loaded)
  then show ?thesis
    by (rule reachable.constructed[of desktop None 0 monitored_desktop])
      (simp add: monitored_desktop_def new_ViewportSizeMonitor_desktop)
qed

text \<open>
  The claim as it is written fails on a disposed monitor: the constructor measured the
  window (the trace holds the measurement, and the monitor showed 1024 by 768), and yet
  \<open>getSize\<close> returns \<^verbatim>\<open>null\<close> after \<open>dispose\<close>.
\<close>

theorem getSize_absent_although_measured:
  "reachable (dispose 0 monitored_desktop) \<and>
   seen_size 0 monitored_desktop = Some \<lparr>width = 1024, height = 768\<rparr> \<and>
   GetViewportSize 0 0 \<in> set (trace (dispose 0 monitored_desktop)) \<and>
   fst (getSize 0 (dispose 0 monitored_desktop)) = None"
proof -
  have "0 < length (monitors monitored_desktop)"
    by (simp add: monitored_desktop_def new_ViewportSizeMonitor_desktop)
  with reachable_monitored_desktop have "reachable (dispose 0 monitored_desktop)"
    by (rule reachable.disposed)
  moreover have "seen_size 0 monitored_desktop = Some \<lparr>width = 1024, height = 768\<rparr>"
    by (simp add: monitored_desktop_def new_ViewportSizeMonitor_desktop seen_size_def)
  ultimately show ?thesis by (simp add: dispose_monitored_desktop getSize_def)
qed

section \<open>The theorems on the two example hosts\<close>

lemma monitored_desktop_eq:
  "monitored_desktop =
     desktop\<lparr>monitors := [\<lparr>disposed = False, subscribers = [], listenerKey = Some 1,
           window = Some 0, size' = Some 0, windowSizePollInterval = None\<rparr>],
       sizes := [\<lparr>width = 1024, height = 768\<rparr>],
       listeners := [(1, 0, 0)],
       next_key := 2,
       trace := [Listen 0 0 1, GetViewportSize 0 0]\<rparr>"
  by (simp add: monitored_desktop_def new_ViewportSizeMonitor_desktop)

lemma monitored_polling_desktop_eq:
  "monitored_polling_desktop =
     polling_desktop\<lparr>monitors := [\<lparr>disposed = False, subscribers = [], listenerKey = Some 1,
           window = Some 0, size' = Some 0, windowSizePollInterval = Some 1\<rparr>],
       sizes := [\<lparr>width = 1024, height = 768\<rparr>],
       listeners := [(1, 0, 0)],
       next_key := 2,
       intervals := [(1, 0, 500)],
       next_interval := 2,
       trace := [Listen 0 0 1, GetViewportSize 0 0, SetInterval 0 500 1]\<rparr>"
  by (simp add: monitored_polling_desktop_def new_ViewportSizeMonitor_polling_desktop)

lemma well_formed_monitored:
  "well_formed monitored_desktop" "well_formed monitored_polling_desktop"
  using well_formed_new_ViewportSizeMonitor[OF well_formed_desktop(1) new_ViewportSizeMonitor_desktop]
    well_formed_new_ViewportSizeMonitor[OF well_formed_desktop(2) new_ViewportSizeMonitor_polling_desktop]
  by (simp_all add: monitored_desktop_def monitored_polling_desktop_def
      new_ViewportSizeMonitor_desktop new_ViewportSizeMonitor_polling_desktop)

lemma monitored_desktop_fields:
  "active 0 monitored_desktop" "window (monitors monitored_desktop ! 0) = Some 0"
  "seen_size 0 monitored_desktop = Some \<lparr>width = 1024, height = 768\<rparr>"
  "length (monitors monitored_desktop) = 1" "length (sizes monitored_desktop) = 1"
  "trace monitored_desktop = [Listen 0 0 1, GetViewportSize 0 0]"
  "viewport monitored_desktop = (\<lambda>w. \<lparr>width = 1024, height = 768\<rparr>)"
  "notifications monitored_desktop = []"
  "\<not> disposed (monitors monitored_desktop ! 0)"
  by (simp_all add: monitored_desktop_eq active_def truthy_def seen_size_def desktop_def
      initial_def notifications_def)

theorem checkForSizeChange_notifies_change_witness:
  "active 0 (host_resize 0 \<lparr>width = 800, height = 600\<rparr> monitored_desktop) \<and>
   window (monitors (host_resize 0 \<lparr>width = 800, height = 600\<rparr> monitored_desktop) ! 0) = Some 0 \<and>
   seen_size 0 (host_resize 0 \<lparr>width = 800, height = 600\<rparr> monitored_desktop)
     = Some \<lparr>width = 1024, height = 768\<rparr> \<and>
   notifications (checkForSizeChange 0 (host_resize 0 \<lparr>width = 800, height = 600\<rparr> monitored_desktop))
     = [DispatchEvent 0 RESIZE (Some \<lparr>width = 800, height = 600\<rparr>)] \<and>
   seen_size 0 (checkForSizeChange 0 (host_resize 0 \<lparr>width = 800, height = 600\<rparr> monitored_desktop))
     = Some \<lparr>width = 800, height = 600\<rparr>"
proof -
  define s where "s = host_resize 0 \<lparr>width = 800, height = 600\<rparr> monitored_desktop"
  have a: "active 0 s" and b: "window (monitors s ! 0) = Some 0"
    and c: "seen_size 0 s = Some \<lparr>width = 1024, height = 768\<rparr>"
    and d: "viewport s 0 = \<lparr>width = 800, height = 600\<rparr>" "notifications s = []"
    by (simp_all add: s_def host_resize_fields monitored_desktop_fields)
      (simp add: host_resize_def notifications_def monitored_desktop_fields)
  from checkForSizeChange_notifies_change[OF a b] a b c d show ?thesis
    unfolding s_def[symmetric] by (simp add: Let_def)
qed

theorem checks_equal_measurements_silent_witness:
  "active 0 monitored_desktop \<and> window (monitors monitored_desktop ! 0) = Some 0 \<and>
   seen_size 0 monitored_desktop = Some \<lparr>width = 1024, height = 768\<rparr> \<and>
   set [\<lparr>width = 1024, height = 768\<rparr>, \<lparr>width = 1024, height = 768\<rparr>]
     \<subseteq> {\<lparr>width = 1024, height = 768\<rparr>} \<and>
   monitors (checks 0 0 [\<lparr>width = 1024, height = 768\<rparr>, \<lparr>width = 1024, height = 768\<rparr>]
     monitored_desktop) = monitors monitored_desktop \<and>
   notifications (checks 0 0 [\<lparr>width = 1024, height = 768\<rparr>, \<lparr>width = 1024, height = 768\<rparr>]
     monitored_desktop) = [] \<and>
   length (trace (checks 0 0 [\<lparr>width = 1024, height = 768\<rparr>, \<lparr>width = 1024, height = 768\<rparr>]
     monitored_desktop)) = 4"
proof -
  have h: "set [\<lparr>width = 1024, height = 768\<rparr>, \<lparr>width = 1024, height = 768\<rparr>]
     \<subseteq> {\<lparr>width = 1024::nat, height = 768::nat\<rparr>}" by simp
  from checks_equal_measurements_silent[OF monitored_desktop_fields(1,2,3) h]
  show ?thesis by (simp add: monitored_desktop_fields)
qed

theorem dispose_twice_witness:
  "well_formed monitored_polling_desktop \<and> 0 < length (monitors monitored_polling_desktop) \<and>
   \<not> disposed (monitors monitored_polling_desktop ! 0) \<and>
   dispose 0 (dispose 0 monitored_polling_desktop) = dispose 0 monitored_polling_desktop \<and>
   disposeInternal 0 (dispose 0 monitored_polling_desktop) = dispose 0 monitored_polling_desktop \<and>
   trace (dispose 0 monitored_polling_desktop) =
     [Listen 0 0 1, GetViewportSize 0 0, SetInterval 0 500 1, UnlistenByKey 1, ClearInterval 1] \<and>
   window (monitors (dispose 0 monitored_polling_desktop) ! 0) = None \<and>
   size' (monitors (dispose 0 monitored_polling_desktop) ! 0) = None \<and>
   (1, 0, 0) \<notin> set (listeners (dispose 0 monitored_polling_desktop)) \<and>
   (1, 0, 500) \<notin> set (intervals (dispose 0 monitored_polling_desktop))"
proof -
  have l: "0 < length (monitors monitored_polling_desktop)"
    and n: "\<not> disposed (monitors monitored_polling_desktop ! 0)"
    and f: "listenerKey (monitors monitored_polling_desktop ! 0) = Some 1"
      "windowSizePollInterval (monitors monitored_polling_desktop ! 0) = Some 1"
      "trace monitored_polling_desktop = [Listen 0 0 1, GetViewportSize 0 0, SetInterval 0 500 1]"
    by (simp_all add: monitored_polling_desktop_eq)
  from dispose_twice[OF well_formed_monitored(2) l n, of 1 0 1 500] well_formed_monitored(2) l n
  show ?thesis by (simp add: f)
qed

theorem getSize_returns_copy_witness:
  "reachable monitored_desktop \<and> 0 < length (monitors monitored_desktop) \<and>
   \<not> disposed (monitors monitored_desktop ! 0) \<and>
   fst (getSize 0 monitored_desktop) = Some 1 \<and>
   size' (monitors monitored_desktop ! 0) \<noteq> Some 1 \<and>
   monitors (snd (getSize 0 monitored_desktop)) = monitors monitored_desktop \<and>
   trace (snd (getSize 0 monitored_desktop)) = trace monitored_desktop \<and>
   sizes (snd (getSize 0 monitored_desktop)) ! 1 = \<lparr>width = 1024, height = 768\<rparr> \<and>
   seen_size 0 (set_Size 1 1 1 (snd (getSize 0 monitored_desktop)))
     = Some \<lparr>width = 1024, height = 768\<rparr> \<and>
   fst (getSize 0 (disposeInternal 0 monitored_desktop)) = None \<and>
   fst (getSize 0 (dispose 0 monitored_desktop)) = None"
proof -
  have l: "0 < length (monitors monitored_desktop)"
    and g: "fst (getSize 0 monitored_desktop) = Some 1"
    by (simp_all add: monitored_desktop_eq getSize_def goog_math_Size_clone_def)
  from getSize_returns_copy[OF reachable_monitored_desktop l, of 1 1]
    reachable_monitored_desktop l
  show ?thesis by (simp add: g monitored_desktop_fields)
qed

lemma desktop_fields:
  "or_window None desktop = 0" "or_window (Some w) desktop = w"
  "length (monitors desktop) = 0" "length (sizes desktop) = 0"
  "viewport desktop = (\<lambda>w. \<lparr>width = 1024, height = 768\<rparr>)"
  "notifications desktop = []" "next_key desktop = 1" "next_interval desktop = 1"
  "windowInstanceMap desktop = Map.empty" "\<not> host_needs_polling desktop w"
  by (simp_all add: desktop_def initial_def or_window_def notifications_def host_needs_polling_def)

lemma polling_desktop_fields:
  "or_window None polling_desktop = 0"
  "length (monitors polling_desktop) = 0" "length (sizes polling_desktop) = 0"
  "intervals polling_desktop = []" "trace polling_desktop = []"
  "next_key polling_desktop = 1" "next_interval polling_desktop = 1"
  "host_needs_polling polling_desktop w"
  by (simp_all add: polling_desktop_def initial_def or_window_def host_needs_polling_def)

theorem construction_measures_and_subscribes_witness:
  "well_formed desktop \<and>
   \<lparr>width = 800, height = 600\<rparr> \<noteq> viewport desktop (or_window None desktop) \<and>
   (\<exists>s'. new_ViewportSizeMonitor None desktop = Inr (0, s') \<and>
      seen_size 0 s' = Some \<lparr>width = 1024, height = 768\<rparr> \<and>
      notifications s' = [] \<and>
      (1, 0, 0) \<in> set (listeners s') \<and> active 0 s' \<and>
      DispatchEvent 0 RESIZE (Some \<lparr>width = 800, height = 600\<rparr>)
        \<in> set (trace (fire_resize 0 (host_resize 0 \<lparr>width = 800, height = 600\<rparr> s'))))"
proof -
  have h: "\<lparr>width = 800, height = 600\<rparr> \<noteq> viewport desktop (or_window None desktop)"
    by (simp add: desktop_fields)
  from construction_measures_and_subscribes[OF well_formed_desktop(1), of None
      "\<lparr>width = 800, height = 600\<rparr>"] h well_formed_desktop(1)
  show ?thesis by (simp add: desktop_fields) blast
qed

theorem polling_timer_iff_host_check_witness:
  "well_formed polling_desktop \<and> host_needs_polling polling_desktop (or_window None polling_desktop) \<and>
   (\<exists>s'. new_ViewportSizeMonitor None polling_desktop = Inr (0, s') \<and>
      intervals s' = [(1, 0, 500)] \<and>
      trace s' = [Listen 0 0 1, GetViewportSize 0 0, SetInterval 0 500 1] \<and>
      fire_interval 1 s' = handleResize 0 s' \<and>
      notifications (poll 3 1 s') = notifications s' \<and>
      length (trace (poll 3 1 s')) = 6)"
proof -
  have h: "host_needs_polling polling_desktop (or_window None polling_desktop)"
    by (simp add: polling_desktop_fields)
  from polling_timer_iff_host_check[OF well_formed_desktop(2), of None 3] h well_formed_desktop(2)
  show ?thesis by (simp add: polling_desktop_fields) fastforce
qed

theorem getInstanceForWindow_same_instance_witness:
  "well_formed desktop \<and> or_window (Some 7) desktop \<noteq> or_window None desktop \<and>
   (\<exists>r s1. getInstanceForWindow None desktop = Inr (r, s1) \<and>
      getInstanceForWindow None s1 = Inr (r, s1) \<and>
      windowInstanceMap s1 = [0 \<mapsto> r] \<and>
      (\<exists>r' s2. getInstanceForWindow (Some 7) s1 = Inr (r', s2) \<and> r' \<noteq> r \<and>
         windowInstanceMap s2 0 = Some r \<and> windowInstanceMap s2 7 = Some r'))"
proof -
  have h: "or_window (Some 7) desktop \<noteq> or_window None desktop"
    by (simp add: desktop_fields)
  from getInstanceForWindow_same_instance[OF well_formed_desktop(1), of None "Some 7"] h
    well_formed_desktop(1)
  show ?thesis by (simp add: desktop_fields) blast
qed

lemma registered_desktop_eq:
  "getInstanceForWindow None desktop = Inr (0, registered_desktop) \<and>
   registered_desktop = monitored_desktop\<lparr>windowInstanceMap := [0 \<mapsto> 0]\<rparr>"
proof -
  have n: "new_ViewportSizeMonitor (Some 0) desktop = Inr (0, monitored_desktop)"
    using new_ViewportSizeMonitor_no_polling[of desktop "Some 0"]
    by (simp add: desktop_fields monitored_desktop_eq) (simp add: desktop_def initial_def)
  have "getInstanceForWindow None desktop =
    Inr (0, monitored_desktop\<lparr>windowInstanceMap := (windowInstanceMap monitored_desktop)(0 \<mapsto> 0)\<rparr>)"
    using getInstanceForWindow_new[of desktop None 0 monitored_desktop] n
    by (simp add: desktop_fields)
  then show ?thesis
    by (simp add: registered_desktop_def) (simp add: monitored_desktop_eq desktop_fields)
qed

lemma well_formed_registered: "well_formed registered_desktop"
  using getInstanceForWindow_result[OF well_formed_desktop(1), of None]
  by (auto simp add: registered_desktop_eq)

theorem removeInstanceForWindow_disposes_and_unregisters_witness:
  "well_formed registered_desktop \<and>
   windowInstanceMap registered_desktop (or_window None registered_desktop) = Some 0 \<and>
   \<not> disposed (monitors registered_desktop ! 0) \<and>
   windowInstanceMap (removeInstanceForWindow None registered_desktop) 0 = None \<and>
   disposed (monitors (removeInstanceForWindow None registered_desktop) ! 0) \<and>
   window (monitors (removeInstanceForWindow None registered_desktop) ! 0) = None \<and>
   (1, 0, 0) \<notin> set (listeners (removeInstanceForWindow None registered_desktop)) \<and>
   (\<exists>s2. getInstanceForWindow None (removeInstanceForWindow None registered_desktop) = Inr (1, s2) \<and>
      windowInstanceMap s2 0 = Some 1 \<and> active 1 s2)"
proof -
  have f: "or_window None registered_desktop = 0"
    "windowInstanceMap registered_desktop 0 = Some 0"
    "\<not> disposed (monitors registered_desktop ! 0)"
    by (simp_all add: registered_desktop_eq monitored_desktop_eq or_window_def desktop_def
        initial_def)
  have l: "length (monitors (removeInstanceForWindow None registered_desktop)) = 1"
    by (simp add: removeInstanceForWindow_def goog_getUid_def goog_dispose_def f Let_def)
      (simp add: registered_desktop_eq monitored_desktop_eq dispose_def disposeInternal_def
        update_def EventTarget_disposeInternal_def truthy_def goog_events_unlistenByKey_def
        Let_def)
  note t = removeInstanceForWindow_disposes_and_unregisters[OF well_formed_registered,
      of None 1 0 1 500, unfolded f(1) f(2) option.case l if_not_P[OF f(3)]]
  from t well_formed_registered f(3) show ?thesis unfolding f(1) f(2) by blast
qed

end
